theory Spec2Isabelle
  imports Complex_Main "HOL-Library.Finite_Map"
begin

section \<open>The file-share registry of \<^verbatim>\<open>src/App.tsx\<close>\<close>

text \<open>
  The component \<^verbatim>\<open>App\<close> keeps seven pieces of React state and changes them only in
  its event handlers. Each handler is modelled as a function from the state before the
  event (and the browser it runs in) to the state after it. Handlers are taken to run one
  after the other, each on the state its predecessor left: the page has one thread, and the
  handlers read no state they have written themselves.
\<close>

subsection \<open>Numbers and strings\<close>

text \<open>
  \<^verbatim>\<open>Number.prototype.toString()\<close> on an integer: its decimal digits, most significant
  first, with a minus sign for a negative number. Characters are identified by their code
  (\<open>48\<close> is the digit zero).
\<close>

definition digit_char :: "nat \<Rightarrow> char" where
  "digit_char d = char_of (48 + d)"

fun digits :: "nat \<Rightarrow> string" where
  "digits n = (if n < 10 then [digit_char n] else digits (n div 10) @ [digit_char (n mod 10)])"

definition toString :: "int \<Rightarrow> string" where
  "toString n = (if n < 0 then CHR ''-'' # digits (nat (- n)) else digits (nat n))"

text \<open>The character class \<^verbatim>\<open>\d\<close> of a regular expression: the ten characters 0 to 9.\<close>

definition isDigit :: "char \<Rightarrow> bool" where
  "isDigit c = (48 \<le> (of_char c :: nat) \<and> (of_char c :: nat) \<le> 57)"

text \<open>
  The number a string of decimal digits denotes (what \<^verbatim>\<open>Number(code)\<close> gives for such
  a string); it is used only to state what a code's numeric value is.
\<close>

definition digit_val :: "char \<Rightarrow> nat" where
  "digit_val c = of_char c - 48"

definition numeric_value :: "string \<Rightarrow> nat" where
  "numeric_value s = foldl (\<lambda>acc c. 10 * acc + digit_val c) 0 s"

subsection \<open>Double-precision numbers\<close>

text \<open>
  A JavaScript number is an IEEE 754 double: a multiplication or an addition gives the
  double nearest to the exact result, a tie going to the one whose last bit is even. The
  doubles are modelled as the rational numbers they denote. \<open>exponent x\<close> is the \<open>e\<close> with
  \<open>2\<^sup>e \<le> |x| < 2\<^sup>e\<^sup>+\<^sup>1\<close>, found by halving or doubling; \<open>ulp x\<close> is the distance between the
  doubles around \<open>x\<close> (53 significant bits, and never below \<open>2\<^sup>-\<^sup>1\<^sup>0\<^sup>7\<^sup>4\<close>, the subnormal step);
  \<open>to_double x\<close> is \<open>x\<close> rounded to a multiple of \<open>ulp x\<close>. Overflow to infinity, from
  \<open>2\<^sup>1\<^sup>0\<^sup>2\<^sup>4\<close> on, is left out: the numbers of this program stay below 10000.
\<close>

function exponent_up :: "rat \<Rightarrow> int" where
  "exponent_up x = (if 2 \<le> x then exponent_up (x / 2) + 1 else 0)"
  by pat_completeness auto
termination
proof (relation "measure (\<lambda>x. nat \<lfloor>x\<rfloor>)")
  show "wf (measure (\<lambda>x::rat. nat \<lfloor>x\<rfloor>))" by simp
next
  fix x :: rat
  assume x: "2 \<le> x"
  have "of_int \<lfloor>x\<rfloor> > x - 1" by linarith
  with x have "x / 2 < of_int \<lfloor>x\<rfloor>" by simp
  then have "\<lfloor>x / 2\<rfloor> < \<lfloor>x\<rfloor>" by (simp add: floor_less_iff)
  moreover have "0 < \<lfloor>x\<rfloor>" using x by simp
  ultimately show "(x / 2, x) \<in> measure (\<lambda>x. nat \<lfloor>x\<rfloor>)" by simp
qed

function exponent_down :: "rat \<Rightarrow> int" where
  "exponent_down x = (if 0 < x \<and> x < 1 then exponent_down (x * 2) - 1 else 0)"
  by pat_completeness auto
termination
proof (relation "measure (\<lambda>x. nat \<lceil>1 / x\<rceil>)")
  show "wf (measure (\<lambda>x::rat. nat \<lceil>1 / x\<rceil>))" by simp
next
  fix x :: rat
  assume x: "0 < x \<and> x < 1"
  define y where "y = 1 / x"
  from x have y: "1 < y" by (simp add: y_def)
  then have "2 \<le> \<lceil>y\<rceil>" by linarith
  then have "(of_int \<lceil>y\<rceil> :: rat) / 2 \<le> of_int (\<lceil>y\<rceil> - 1)" by simp
  moreover have "y / 2 \<le> of_int \<lceil>y\<rceil> / 2" by simp
  ultimately have "y / 2 \<le> of_int (\<lceil>y\<rceil> - 1)" by linarith
  then have "\<lceil>y / 2\<rceil> \<le> \<lceil>y\<rceil> - 1" by (simp only: ceiling_le_iff)
  moreover have "1 / (x * 2) = y / 2" unfolding y_def by (simp only: divide_divide_eq_left)
  moreover have "0 < \<lceil>y\<rceil>" using y by linarith
  ultimately have "nat \<lceil>1 / (x * 2)\<rceil> < nat \<lceil>y\<rceil>" by linarith
  then show "(x * 2, x) \<in> measure (\<lambda>x. nat \<lceil>1 / x\<rceil>)"
    unfolding in_measure y_def .
qed

definition exponent :: "rat \<Rightarrow> int" where
  "exponent x = (if 1 \<le> \<bar>x\<bar> then exponent_up \<bar>x\<bar> else exponent_down \<bar>x\<bar>)"

definition ulp_exponent :: "rat \<Rightarrow> int" where
  "ulp_exponent x = max (exponent x - 52) (- 1074)"

definition ulp :: "rat \<Rightarrow> rat" where
  "ulp x = 2 powi ulp_exponent x"

text \<open>Rounding to the nearest integer, a tie going to the even one.\<close>

definition round_even :: "rat \<Rightarrow> int" where
  "round_even z =
     (if z - of_int \<lfloor>z\<rfloor> < 1 / 2 then \<lfloor>z\<rfloor>
      else if 1 / 2 < z - of_int \<lfloor>z\<rfloor> then \<lfloor>z\<rfloor> + 1
      else if even \<lfloor>z\<rfloor> then \<lfloor>z\<rfloor> else \<lfloor>z\<rfloor> + 1)"

definition to_double :: "rat \<Rightarrow> rat" where
  "to_double x = of_int (round_even (x / ulp x)) * ulp x"

definition is_double :: "rat \<Rightarrow> bool" where
  "is_double x = (to_double x = x)"

subsection \<open>The data\<close>

text \<open>Of a browser \<^verbatim>\<open>File\<close> the program reads the name and the size in bytes.\<close>

record File =
  name :: string
  size_bytes :: nat

record FileShare =
  code :: string
  file' :: File
  url :: string

datatype view = upload | download

text \<open>
  \<^verbatim>\<open>fileShares\<close> is a JavaScript \<^verbatim>\<open>Map<string, FileShare>\<close>: a finite map; the
  program uses its \<^verbatim>\<open>has\<close>, \<^verbatim>\<open>get\<close>, \<^verbatim>\<open>set\<close> and \<^verbatim>\<open>size\<close>.
\<close>

type_synonym registry = "(string, FileShare) fmap"

definition has :: "registry \<Rightarrow> string \<Rightarrow> bool" where
  "has m k = (fmlookup m k \<noteq> None)"

definition get :: "registry \<Rightarrow> string \<Rightarrow> FileShare option" where
  "get m k = fmlookup m k"

definition set_entry :: "registry \<Rightarrow> string \<Rightarrow> FileShare \<Rightarrow> registry" where
  "set_entry m k v = fmupd k v m"

definition size_of :: "registry \<Rightarrow> nat" where
  "size_of m = fcard (fmdom m)"

record App =
  view :: view
  fileShares :: registry
  uploadedCode :: string
  downloadCode :: string
  error :: string
  copied :: bool
  isDragging :: bool

text \<open>The state of the first render: the arguments of the seven \<^verbatim>\<open>useState\<close> calls.\<close>

definition initial :: App where
  "initial = \<lparr>view = upload, fileShares = fmempty, uploadedCode = [], downloadCode = [],
     error = [], copied = False, isDragging = False\<rparr>"

text \<open>
  What the handlers use of the browser: \<open>random k\<close> is the value the call number \<open>k\<close>
  of \<^verbatim>\<open>Math.random()\<close> returns (counting from 0) and \<open>randomCalls\<close> the number of calls
  made so far; \<open>objectURL k\<close> and \<open>objectURLCalls\<close> are the same for
  \<^verbatim>\<open>URL.createObjectURL\<close>; then the text on the clipboard, and the downloads started so
  far, each the \<^verbatim>\<open>href\<close> and the \<^verbatim>\<open>download\<close> file name of the anchor that was
  clicked.

  A value of \<^verbatim>\<open>Math.random()\<close> is a double, given as the rational number it denotes.
\<close>

record Browser =
  random :: "nat \<Rightarrow> rat"
  randomCalls :: nat
  objectURL :: "nat \<Rightarrow> string"
  objectURLCalls :: nat
  clipboard :: string
  downloads :: "(string \<times> string) list"

subsection \<open>Generating a code\<close>

text \<open>
  \<^verbatim>\<open>Math.floor(1000 + Math.random() * 9000).toString()\<close>, for a value \<open>r\<close> of
  \<^verbatim>\<open>Math.random()\<close>: the product is rounded to a double, then the sum is, and the floor of
  a double is exact.
\<close>

definition draw :: "rat \<Rightarrow> string" where
  "draw r = toString \<lfloor>to_double (1000 + to_double (r * 9000))\<rfloor>"

text \<open>
  \<^verbatim>\<open>generateCode\<close>: the \<^verbatim>\<open>do ... while (fileShares.has(code))\<close> loop, started when
  \<open>i\<close> calls of \<^verbatim>\<open>Math.random()\<close> have been made. It returns the code and the number
  of calls made by then; \<open>None\<close> is the loop that never ends.
\<close>

partial_function (option) generateCode :: "registry \<Rightarrow> (nat \<Rightarrow> rat) \<Rightarrow> nat \<Rightarrow> (string \<times> nat) option" where
  "generateCode m rnd i =
     (if has m (draw (rnd i)) then generateCode m rnd (Suc i)
      else Some (draw (rnd i), Suc i))"

declare generateCode.simps [code]

subsection \<open>The handlers\<close>

text \<open>
  \<^verbatim>\<open>handleFileUpload\<close>. The argument is \<open>None\<close> when the caller passes no file. The
  statement \<^verbatim>\<open>fileShares.set(code, newShare)\<close> changes the old \<^verbatim>\<open>Map\<close> object too, but
  that object is dropped in favour of the copy \<^verbatim>\<open>new Map(...)\<close>.
\<close>

definition handleFileUpload :: "File option \<Rightarrow> App \<times> Browser \<Rightarrow> (App \<times> Browser) option" where
  "handleFileUpload fo w =
     (case w of (s, b) \<Rightarrow>
        (case fo of
           None \<Rightarrow> Some (s, b)
         | Some f \<Rightarrow>
             (case generateCode (fileShares s) (random b) (randomCalls b) of
                None \<Rightarrow> None
              | Some (c, i') \<Rightarrow>
                  let u = objectURL b (objectURLCalls b);
                      newShare = \<lparr>code = c, file' = f, url = u\<rparr>
                  in Some (s\<lparr>fileShares := set_entry (fileShares s) c newShare,
                              uploadedCode := c, error := []\<rparr>,
                           b\<lparr>randomCalls := i', objectURLCalls := Suc (objectURLCalls b)\<rparr>))))"

definition handleFileSelect :: "File option \<Rightarrow> App \<times> Browser \<Rightarrow> (App \<times> Browser) option" where
  "handleFileSelect fo w = (case fo of None \<Rightarrow> Some w | Some f \<Rightarrow> handleFileUpload (Some f) w)"

definition handleDragOver :: "App \<Rightarrow> App" where
  "handleDragOver s = s\<lparr>isDragging := True\<rparr>"

definition handleDragLeave :: "App \<Rightarrow> App" where
  "handleDragLeave s = s\<lparr>isDragging := False\<rparr>"

definition handleDrop :: "File option \<Rightarrow> App \<times> Browser \<Rightarrow> (App \<times> Browser) option" where
  "handleDrop fo w =
     (case w of (s, b) \<Rightarrow>
        (case fo of
           None \<Rightarrow> Some (s\<lparr>isDragging := False\<rparr>, b)
         | Some f \<Rightarrow> handleFileUpload (Some f) (s\<lparr>isDragging := False\<rparr>, b)))"

definition invalid_code_message :: string where
  "invalid_code_message = ''Invalid code. Please check and try again.''"

definition handleDownload :: "App \<times> Browser \<Rightarrow> App \<times> Browser" where
  "handleDownload w =
     (case w of (s, b) \<Rightarrow>
        (case get (fileShares s) (downloadCode s) of
           None \<Rightarrow> (s\<lparr>error := invalid_code_message\<rparr>, b)
         | Some share \<Rightarrow>
             (s\<lparr>error := [], downloadCode := []\<rparr>,
              b\<lparr>downloads := downloads b @ [(url share, name (file' share))]\<rparr>)))"

text \<open>
  \<^verbatim>\<open>copyCode\<close> writes the code to the clipboard and sets \<^verbatim>\<open>copied\<close>; the timer it
  starts clears \<^verbatim>\<open>copied\<close> again, which is the event \<open>CopiedTimeout\<close> below.
\<close>

definition copyCode :: "App \<times> Browser \<Rightarrow> App \<times> Browser" where
  "copyCode w = (case w of (s, b) \<Rightarrow> (s\<lparr>copied := True\<rparr>, b\<lparr>clipboard := uploadedCode s\<rparr>))"

text \<open>The handlers written in the markup.\<close>

definition clickUploadTab :: "App \<Rightarrow> App" where
  "clickUploadTab s = s\<lparr>view := upload, error := [], uploadedCode := []\<rparr>"

definition clickDownloadTab :: "App \<Rightarrow> App" where
  "clickDownloadTab s = s\<lparr>view := download, error := [], downloadCode := []\<rparr>"

definition clickUploadAnother :: "App \<Rightarrow> App" where
  "clickUploadAnother s = s\<lparr>uploadedCode := []\<rparr>"

text \<open>
  The \<^verbatim>\<open>onChange\<close> of the code field: \<^verbatim>\<open>e.target.value.replace(/\D/g, '').slice(0, 4)\<close>
  is stored, and the error is cleared.
\<close>

definition changeDownloadCode :: "string \<Rightarrow> App \<Rightarrow> App" where
  "changeDownloadCode typed s = s\<lparr>downloadCode := take 4 (filter isDigit typed), error := []\<rparr>"

subsection \<open>Events\<close>

text \<open>
  What the user (or the timer) can do. An element takes an event only while it is
  rendered and not disabled; \<open>enabled\<close> reads that off the markup: the drop zone and the
  file input are rendered in the upload view while \<^verbatim>\<open>uploadedCode\<close> is empty, the copy
  and "Upload Another File" buttons in the upload view while it is not, the code field and
  the download button in the download view, and the download button is disabled unless
  \<^verbatim>\<open>downloadCode.length\<close> is 4.
\<close>

datatype event =
    ClickUploadTab
  | ClickDownloadTab
  | SelectFile "File option"
  | DragOver
  | DragLeave
  | Drop "File option"
  | ClickCopy
  | CopiedTimeout
  | ClickUploadAnother
  | TypeCode string
  | ClickDownload

fun enabled :: "App \<Rightarrow> event \<Rightarrow> bool" where
  "enabled s ClickUploadTab = True"
| "enabled s ClickDownloadTab = True"
| "enabled s (SelectFile fo) = (view s = upload \<and> uploadedCode s = [])"
| "enabled s DragOver = (view s = upload \<and> uploadedCode s = [])"
| "enabled s DragLeave = (view s = upload \<and> uploadedCode s = [])"
| "enabled s (Drop fo) = (view s = upload \<and> uploadedCode s = [])"
| "enabled s ClickCopy = (view s = upload \<and> uploadedCode s \<noteq> [])"
| "enabled s CopiedTimeout = True"
| "enabled s ClickUploadAnother = (view s = upload \<and> uploadedCode s \<noteq> [])"
| "enabled s (TypeCode typed) = (view s = download)"
| "enabled s ClickDownload = (view s = download \<and> length (downloadCode s) = 4)"

fun handle :: "event \<Rightarrow> App \<times> Browser \<Rightarrow> (App \<times> Browser) option" where
  "handle ClickUploadTab (s, b) = Some (clickUploadTab s, b)"
| "handle ClickDownloadTab (s, b) = Some (clickDownloadTab s, b)"
| "handle (SelectFile fo) (s, b) = handleFileSelect fo (s, b)"
| "handle DragOver (s, b) = Some (handleDragOver s, b)"
| "handle DragLeave (s, b) = Some (handleDragLeave s, b)"
| "handle (Drop fo) (s, b) = handleDrop fo (s, b)"
| "handle ClickCopy (s, b) = Some (copyCode (s, b))"
| "handle CopiedTimeout (s, b) = Some (s\<lparr>copied := False\<rparr>, b)"
| "handle ClickUploadAnother (s, b) = Some (clickUploadAnother s, b)"
| "handle (TypeCode typed) (s, b) = Some (changeDownloadCode typed s, b)"
| "handle ClickDownload (s, b) = Some (handleDownload (s, b))"

text \<open>One event: its handler runs if the element takes the event, and nothing happens otherwise.\<close>

definition step :: "event \<Rightarrow> App \<times> Browser \<Rightarrow> (App \<times> Browser) option" where
  "step e w = (if enabled (fst w) e then handle e w else Some w)"

text \<open>A session: the events one after the other; \<open>None\<close> if a handler never returns.\<close>

fun run :: "event list \<Rightarrow> App \<times> Browser \<Rightarrow> (App \<times> Browser) option" where
  "run [] w = Some w"
| "run (e # es) w = (case step e w of None \<Rightarrow> None | Some w' \<Rightarrow> run es w')"

text \<open>
  The markup, too, looks codes up: while the upload view shows an uploaded code it
  evaluates \<^verbatim>\<open>fileShares.get(uploadedCode)\<close> for the file's name and again for its size.
  These are the keys a render passes to \<^verbatim>\<open>get\<close>.
\<close>

definition render_lookups :: "App \<Rightarrow> string list" where
  "render_lookups s =
     (if view s = upload \<and> uploadedCode s \<noteq> [] then [uploadedCode s, uploadedCode s] else [])"

subsection \<open>Vocabulary of the properties\<close>

text \<open>A code: four decimal digits denoting a number from 1000 to 9999.\<close>

definition is_code :: "string \<Rightarrow> bool" where
  "is_code c =
     (length c = 4 \<and> list_all isDigit c \<and> 1000 \<le> numeric_value c \<and> numeric_value c \<le> 9999)"

text \<open>
  What \<^verbatim>\<open>Math.random()\<close> promises: every value is a double, at least 0 and less than 1.
\<close>

definition in_range :: "(nat \<Rightarrow> rat) \<Rightarrow> bool" where
  "in_range rnd = (\<forall>k. is_double (rnd k) \<and> 0 \<le> rnd k \<and> rnd k < 1)"

text \<open>A registry in which each of the 9000 codes is a key.\<close>

definition full :: "registry \<Rightarrow> bool" where
  "full m = list_all (\<lambda>n. has m (toString (int n))) [1000..<10000]"

text \<open>
  A random source that keeps drawing every code: whatever the code and however many calls
  have been made, a later call draws it. Uniformly random draws do so (with probability 1);
  this is what the properties about returning need of them.
\<close>

definition fair :: "(nat \<Rightarrow> rat) \<Rightarrow> bool" where
  "fair rnd = (\<forall>n::int. \<forall>i. 1000 \<le> n \<and> n \<le> 9999 \<longrightarrow> (\<exists>k\<ge>i. draw (rnd k) = toString n))"

text \<open>
  The events that hand a file to \<^verbatim>\<open>handleFileUpload\<close>, and the codes a session assigns:
  the \<^verbatim>\<open>uploadedCode\<close> each such event leaves, in the order of the events.
\<close>

fun is_upload :: "event \<Rightarrow> bool" where
  "is_upload (SelectFile (Some f)) = True"
| "is_upload (Drop (Some f)) = True"
| "is_upload e = False"

fun assigned :: "event list \<Rightarrow> App \<times> Browser \<Rightarrow> string list" where
  "assigned [] w = []"
| "assigned (e # es) w =
     (case step e w of
        None \<Rightarrow> []
      | Some w' \<Rightarrow>
          (if enabled (fst w) e \<and> is_upload e then [uploadedCode (fst w')] else [])
            @ assigned es w')"

subsection \<open>A session used as an example\<close>

definition report_pdf :: File where
  "report_pdf = \<lparr>name = ''report.pdf'', size_bytes = 2048\<rparr>"

definition notes_txt :: File where
  "notes_txt = \<lparr>name = ''notes.txt'', size_bytes = 17\<rparr>"

text \<open>
  A browser whose \<^verbatim>\<open>Math.random()\<close> returns 0, 0, 1/2 and then 0 for ever, and whose
  object URLs are numbered.
\<close>

definition example_browser :: Browser where
  "example_browser =
     \<lparr>random = (\<lambda>k. if k = 2 then 1 / 2 else 0), randomCalls = 0,
      objectURL = (\<lambda>k. ''blob:'' @ digits k), objectURLCalls = 0,
      clipboard = [], downloads = []\<rparr>"

definition example_session :: "event list" where
  "example_session = [SelectFile (Some report_pdf), ClickUploadAnother, Drop (Some notes_txt)]"

text \<open>
  A registry with the one key 1000 (what the first upload of the example leaves), the
  state and the browser after that upload (\<open>app1\<close>, \<open>browser1\<close>) and after the whole
  session (\<open>app2\<close>, \<open>browser2\<close>).
\<close>

definition one_entry :: registry where
  "one_entry = set_entry fmempty ''1000'' \<lparr>code = ''1000'', file' = report_pdf, url = ''blob:0''\<rparr>"

definition app1 :: App where
  "app1 = initial\<lparr>fileShares := one_entry, uploadedCode := ''1000''\<rparr>"

definition browser1 :: Browser where
  "browser1 = example_browser\<lparr>randomCalls := 1, objectURLCalls := 1\<rparr>"

definition app2 :: App where
  "app2 = initial\<lparr>fileShares := set_entry one_entry ''5500''
                     \<lparr>code = ''5500'', file' = notes_txt, url = ''blob:1''\<rparr>,
                 uploadedCode := ''5500''\<rparr>"

definition browser2 :: Browser where
  "browser2 = example_browser\<lparr>randomCalls := 3, objectURLCalls := 2\<rparr>"

text \<open>A session in the download view: the user types seven characters into the code field.\<close>

definition typing_session :: "event list" where
  "typing_session = [ClickDownloadTab, TypeCode ''12a3b45'']"

text \<open>
  A random source that draws the codes in turn, 1000 to 9999 and again: call \<open>k\<close> returns
  the least multiple of \<open>2\<^sup>-\<^sup>1\<^sup>4\<close> that draws the code \<open>1000 + k mod 9000\<close>. Then a browser with
  that source, and a registry with all 9000 codes.
\<close>

definition fair_random :: "nat \<Rightarrow> rat" where
  "fair_random k = of_int \<lceil>of_nat (k mod 9000) * 2 ^ 14 / (9000::rat)\<rceil> / 2 ^ 14"

definition fair_browser :: Browser where
  "fair_browser = example_browser\<lparr>random := fair_random\<rparr>"

definition all_codes :: registry where
  "all_codes =
     fold (\<lambda>n m. set_entry m (toString (int n))
                    \<lparr>code = toString (int n), file' = report_pdf, url = []\<rparr>)
       [1000..<10000] fmempty"

section \<open>Properties\<close>

subsection \<open>Decimal digits\<close>

lemma digit_char_eval:
  "digit_char 0 = CHR ''0''" "digit_char 1 = CHR ''1''" "digit_char 2 = CHR ''2''"
  "digit_char 3 = CHR ''3''" "digit_char 4 = CHR ''4''" "digit_char 5 = CHR ''5''"
  "digit_char 6 = CHR ''6''" "digit_char 7 = CHR ''7''" "digit_char 8 = CHR ''8''"
  "digit_char 9 = CHR ''9''" "digit_char (Suc 0) = CHR ''1''"
  by code_simp+

lemma isDigit_digit_char: "d < 10 \<Longrightarrow> isDigit (digit_char d)"
  by (simp add: isDigit_def digit_char_def)

lemma digit_val_digit_char: "d < 10 \<Longrightarrow> digit_val (digit_char d) = d"
  by (simp add: digit_val_def digit_char_def)

lemma digit_char_nonzero: "0 < d \<Longrightarrow> d < 10 \<Longrightarrow> digit_char d \<noteq> CHR ''0''"
  using digit_val_digit_char [of d] by (auto simp: digit_val_def)

lemma digits_lt10: "n < 10 \<Longrightarrow> digits n = [digit_char n]"
  by simp

lemma digits_ge10: "10 \<le> n \<Longrightarrow> digits n = digits (n div 10) @ [digit_char (n mod 10)]"
  by simp

declare digits.simps [simp del]

lemma list_all_isDigit_digits: "list_all isDigit (digits n)"
proof (induction n rule: digits.induct)
  case (1 n)
  show ?case
  proof (cases "n < 10")
    case True
    then show ?thesis by (simp add: digits_lt10 isDigit_digit_char)
  next
    case False
    with 1 show ?thesis by (simp add: digits_ge10 isDigit_digit_char)
  qed
qed

lemma numeric_value_snoc: "numeric_value (s @ [c]) = 10 * numeric_value s + digit_val c"
  by (simp add: numeric_value_def)

lemma numeric_value_digits: "numeric_value (digits n) = n"
proof (induction n rule: digits.induct)
  case (1 n)
  show ?case
  proof (cases "n < 10")
    case True
    then show ?thesis by (simp add: digits_lt10 numeric_value_def digit_val_digit_char)
  next
    case False
    with 1 show ?thesis by (simp add: digits_ge10 numeric_value_snoc digit_val_digit_char)
  qed
qed

lemma digits_4:
  assumes "1000 \<le> n" and "n \<le> 9999"
  shows "length (digits n) = 4 \<and> hd (digits n) \<noteq> CHR ''0''"
proof -
  have a: "10 \<le> n" "10 \<le> n div 10" "10 \<le> n div 10 div 10" "n div 10 div 10 div 10 < 10"
    and b: "0 < n div 10 div 10 div 10"
    using assms by simp_all
  show ?thesis
    by (simp add: digits_ge10 [OF a(1)] digits_ge10 [OF a(2)] digits_ge10 [OF a(3)]
        digits_lt10 [OF a(4)] digit_char_nonzero [OF b a(4)])
qed

subsection \<open>Double-precision rounding\<close>

lemma exponent_up_bounds:
  "1 \<le> x \<Longrightarrow> 2 powi exponent_up x \<le> x \<and> x < 2 powi (exponent_up x + 1)"
proof (induction x rule: exponent_up.induct)
  case (1 x)
  show ?case
  proof (cases "2 \<le> x")
    case True
    then have "1 \<le> x / 2" by simp
    from 1(1) [OF True this]
    have IH: "2 powi exponent_up (x / 2) \<le> x / 2" "x / 2 < 2 powi (exponent_up (x / 2) + 1)"
      by simp_all
    have e: "exponent_up x = exponent_up (x / 2) + 1" using True by simp
    have "2 powi (exponent_up (x / 2) + 1) = 2 powi exponent_up (x / 2) * (2::rat)"
      "2 powi (exponent_up (x / 2) + 1 + 1) = 2 powi (exponent_up (x / 2) + 1) * (2::rat)"
      by (simp_all add: power_int_add)
    with IH show ?thesis unfolding e by linarith
  next
    case False
    with 1(2) show ?thesis by simp
  qed
qed

lemma exponent_down_bounds:
  "0 < x \<Longrightarrow> x < 1 \<Longrightarrow> 2 powi exponent_down x \<le> x \<and> x < 2 powi (exponent_down x + 1)"
proof (induction x rule: exponent_down.induct)
  case (1 x)
  have e: "exponent_down x = exponent_down (x * 2) - 1" using 1(2,3) by simp
  have p: "2 powi exponent_down (x * 2) = 2 powi (exponent_down (x * 2) - 1) * (2::rat)"
    "2 powi (exponent_down (x * 2) + 1) = 2 powi (exponent_down (x * 2) - 1 + 1) * (2::rat)"
    by (simp_all add: power_int_diff)
  show ?case
  proof (cases "x * 2 < 1")
    case True
    from 1(2,3) have "0 < x \<and> x < 1" by simp
    moreover from 1(2) have "0 < x * 2" by simp
    ultimately have "2 powi exponent_down (x * 2) \<le> x * 2"
      "x * 2 < 2 powi (exponent_down (x * 2) + 1)"
      using 1(1) True by simp_all
    with p show ?thesis unfolding e by linarith
  next
    case False
    then have "exponent_down (x * 2) = 0" by simp
    with False 1(2,3) show ?thesis unfolding e by (simp add: power_int_minus)
  qed
qed

lemma exponent_bounds:
  assumes "x \<noteq> 0"
  shows "2 powi exponent x \<le> \<bar>x\<bar> \<and> \<bar>x\<bar> < 2 powi (exponent x + 1)"
proof (cases "1 \<le> \<bar>x\<bar>")
  case True
  with exponent_up_bounds [of "\<bar>x\<bar>"] show ?thesis by (simp add: exponent_def)
next
  case False
  with assms exponent_down_bounds [of "\<bar>x\<bar>"] show ?thesis by (simp add: exponent_def)
qed

lemma exponent_zero: "exponent 0 = 0"
  by (simp add: exponent_def)

lemma exponent_le:
  assumes "\<bar>x\<bar> < 2 powi (k + 1)" and "x \<noteq> 0"
  shows "exponent x \<le> k"
proof (rule ccontr)
  assume "\<not> exponent x \<le> k"
  then have "k + 1 \<le> exponent x" by simp
  then have "(2::rat) powi (k + 1) \<le> 2 powi exponent x"
    by (intro power_int_increasing) simp_all
  with exponent_bounds [OF assms(2)] assms(1) show False by linarith
qed

lemma exponent_ge:
  assumes "2 powi k \<le> \<bar>x\<bar>"
  shows "k \<le> exponent x"
proof (rule ccontr)
  assume "\<not> k \<le> exponent x"
  then have "exponent x + 1 \<le> k" by simp
  then have "(2::rat) powi (exponent x + 1) \<le> 2 powi k"
    by (intro power_int_increasing) simp_all
  moreover have "x \<noteq> 0"
  proof
    assume "x = 0"
    with assms have "(2::rat) powi k \<le> 0" by simp
    moreover have "(0::rat) < 2 powi k" by simp
    ultimately show False by linarith
  qed
  ultimately show False using exponent_bounds [of x] assms by linarith
qed

lemma exponent_eq:
  assumes "2 powi k \<le> \<bar>x\<bar>" and "\<bar>x\<bar> < 2 powi (k + 1)"
  shows "exponent x = k"
proof -
  have "x \<noteq> 0"
  proof
    assume "x = 0"
    with assms(1) have "(2::rat) powi k \<le> 0" by simp
    moreover have "(0::rat) < 2 powi k" by simp
    ultimately show False by linarith
  qed
  from exponent_le [OF assms(2) this] exponent_ge [OF assms(1)] show ?thesis by simp
qed

text \<open>The step around a number below \<open>2\<^sup>k\<^sup>+\<^sup>1\<close> is at most \<open>2\<^sup>k\<^sup>-\<^sup>5\<^sup>2\<close>.\<close>

lemma ulp_exponent_le:
  assumes "\<bar>x\<bar> < 2 powi (k + 1)" and "0 \<le> k"
  shows "ulp_exponent x \<le> k - 52"
proof (cases "x = 0")
  case True
  with assms(2) show ?thesis by (simp add: ulp_exponent_def exponent_zero)
next
  case False
  from exponent_le [OF assms(1) False] assms(2) show ?thesis
    by (simp add: ulp_exponent_def)
qed

lemma round_even_of_int: "round_even (of_int n) = n"
  by (simp add: round_even_def)

lemma round_even_le:
  assumes "z \<le> of_int n"
  shows "round_even z \<le> n"
proof (cases "\<lfloor>z\<rfloor> = n")
  case True
  with assms have "z = of_int n" by linarith
  then show ?thesis by (simp add: round_even_of_int)
next
  case False
  moreover from assms have "\<lfloor>z\<rfloor> \<le> n" by (simp add: floor_le_iff)
  ultimately have "\<lfloor>z\<rfloor> + 1 \<le> n" by simp
  then show ?thesis by (simp add: round_even_def)
qed

lemma round_even_ge:
  assumes "of_int n \<le> z"
  shows "n \<le> round_even z"
proof -
  from assms have "n \<le> \<lfloor>z\<rfloor>" by (simp add: le_floor_iff)
  then show ?thesis by (simp add: round_even_def)
qed

lemma round_even_below_half:
  assumes "z < of_int n + 1 / 2"
  shows "round_even z \<le> n"
proof (cases "\<lfloor>z\<rfloor> = n")
  case True
  with assms have "z - of_int \<lfloor>z\<rfloor> < 1 / 2" by simp
  with True show ?thesis by (simp add: round_even_def)
next
  case False
  from assms have "z < of_int (n + 1)" by simp
  then have "\<lfloor>z\<rfloor> < n + 1" by (simp only: floor_less_iff)
  with False have "\<lfloor>z\<rfloor> + 1 \<le> n" by simp
  then show ?thesis by (simp add: round_even_def)
qed

text \<open>A multiple of a power of two at least the step is a multiple of the step.\<close>

lemma multiple_of_ulp:
  assumes "ulp_exponent x \<le> j"
  shows "of_int m * 2 powi j = of_int (m * 2 ^ nat (j - ulp_exponent x)) * ulp x"
proof -
  have "(2::rat) powi j = 2 powi (j - ulp_exponent x) * 2 powi ulp_exponent x"
    by (simp flip: power_int_add)
  moreover have "(2::rat) powi (j - ulp_exponent x) = 2 ^ nat (j - ulp_exponent x)"
    using assms by (simp add: power_int_def)
  ultimately show ?thesis by (simp add: ulp_def)
qed

lemma ulp_pos: "0 < ulp x"
  by (simp add: ulp_def)

lemma to_double_le:
  assumes "x \<le> of_int m * 2 powi j" and "ulp_exponent x \<le> j"
  shows "to_double x \<le> of_int m * 2 powi j"
proof -
  let ?n = "m * 2 ^ nat (j - ulp_exponent x)"
  from multiple_of_ulp [OF assms(2)] have y: "of_int m * 2 powi j = of_int ?n * ulp x" .
  with assms(1) have "x / ulp x \<le> of_int ?n"
    using ulp_pos [of x] by (simp add: pos_divide_le_eq)
  then have "round_even (x / ulp x) \<le> ?n" by (rule round_even_le)
  then have "(of_int (round_even (x / ulp x)) :: rat) \<le> of_int ?n" by (simp only: of_int_le_iff)
  then have "of_int (round_even (x / ulp x)) * ulp x \<le> of_int ?n * ulp x"
    using ulp_pos [of x] by (simp only: mult_le_cancel_right_pos)
  then show ?thesis unfolding to_double_def y .
qed

lemma to_double_ge:
  assumes "of_int m * 2 powi j \<le> x" and "ulp_exponent x \<le> j"
  shows "of_int m * 2 powi j \<le> to_double x"
proof -
  let ?n = "m * 2 ^ nat (j - ulp_exponent x)"
  from multiple_of_ulp [OF assms(2)] have y: "of_int m * 2 powi j = of_int ?n * ulp x" .
  with assms(1) have "of_int ?n \<le> x / ulp x"
    using ulp_pos [of x] by (simp add: pos_le_divide_eq)
  then have "?n \<le> round_even (x / ulp x)" by (rule round_even_ge)
  then have "(of_int ?n :: rat) \<le> of_int (round_even (x / ulp x))" by (simp only: of_int_le_iff)
  then have "of_int ?n * ulp x \<le> of_int (round_even (x / ulp x)) * ulp x"
    using ulp_pos [of x] by (simp only: mult_le_cancel_right_pos)
  then show ?thesis unfolding to_double_def y .
qed

lemma to_double_exact:
  assumes "x = of_int m * 2 powi j" and "ulp_exponent x \<le> j"
  shows "to_double x = x"
proof -
  from assms have "to_double x \<le> x" "x \<le> to_double x"
    using to_double_le [of x m j] to_double_ge [of m j x] by simp_all
  then show ?thesis by simp
qed

text \<open>Integers below \<open>2\<^sup>5\<^sup>3\<close> are doubles.\<close>

lemma to_double_of_int:
  assumes "\<bar>n\<bar> < 2 ^ 53"
  shows "to_double (of_int n) = of_int n"
proof -
  from assms have "\<bar>of_int n :: rat\<bar> < of_int (2 ^ 53)"
    unfolding of_int_abs [symmetric] by (simp only: of_int_less_iff)
  then have "\<bar>of_int n :: rat\<bar> < 2 powi (52 + 1)" by simp
  from ulp_exponent_le [OF this] have "ulp_exponent (of_int n) \<le> 0" by simp
  with to_double_exact [of "of_int n" n 0] show ?thesis by simp
qed

text \<open>A double less than 1 is at most \<open>1 - 2\<^sup>-\<^sup>5\<^sup>3\<close>.\<close>

lemma double_below_one:
  assumes "is_double r" and "0 \<le> r" and "r < 1"
  shows "r \<le> 1 - 1 / 2 ^ 53"
proof (cases "r < 1 / 2")
  case True
  then show ?thesis by simp
next
  case False
  with assms(3) have "2 powi (- 1) \<le> \<bar>r\<bar>" "\<bar>r\<bar> < 2 powi (- 1 + 1)"
    by (simp_all add: power_int_minus)
  then have "exponent r = - 1" by (rule exponent_eq)
  then have u: "ulp r = 1 / 2 ^ 53" by (simp add: ulp_def ulp_exponent_def power_int_minus_divide)
  define n where "n = round_even (r / ulp r)"
  from assms(1) have r: "r = of_int n * (1 / 2 ^ 53)"
    by (simp add: is_double_def to_double_def n_def u)
  with assms(3) have "(of_int n :: rat) < of_int (2 ^ 53)" by simp
  then have "n < 2 ^ 53" by (simp only: of_int_less_iff)
  then have "n \<le> 2 ^ 53 - 1" by simp
  then have "(of_int n :: rat) \<le> of_int (2 ^ 53 - 1)" by (simp only: of_int_le_iff)
  then have "(of_int n :: rat) \<le> 2 ^ 53 - 1" by simp
  then have "of_int n * (1 / 2 ^ 53) \<le> (2 ^ 53 - 1) * (1 / 2 ^ 53 :: rat)"
    by (rule mult_right_mono) simp
  with r show ?thesis by (simp add: field_simps)
qed

subsection \<open>One draw\<close>

text \<open>
  The product \<^verbatim>\<open>Math.random() * 9000\<close>, rounded, is below 9000 by at least one step, and so
  the rounded sum is below 10000.
\<close>

lemma product_bounds:
  assumes "is_double r" and "0 \<le> r" and "r < 1"
  shows "0 \<le> to_double (r * 9000) \<and> to_double (r * 9000) \<le> 9000 - 1 / 2 ^ 39"
proof -
  define p where "p = r * 9000"
  have y: "of_int (9000 * 2 ^ 39 - 1) * 2 powi (- 39) = (9000 - 1 / 2 ^ 39 :: rat)"
    by (simp add: power_int_minus_divide)
  from double_below_one [OF assms] have "p \<le> (1 - 1 / 2 ^ 53) * 9000"
    unfolding p_def by (rule mult_right_mono) simp
  then have hi: "p \<le> 9000 - 9000 / 2 ^ 53" by (simp add: algebra_simps)
  from assms(2) have lo: "0 \<le> p" by (simp add: p_def)
  from hi lo have "\<bar>p\<bar> < 2 powi (13 + 1)" by simp
  from ulp_exponent_le [OF this] have u: "ulp_exponent p \<le> - 39" by simp
  have "of_int 0 * 2 powi (- 39) \<le> p" using lo by simp
  from to_double_ge [OF this u] have low: "0 \<le> to_double p" by simp
  have "to_double p \<le> 9000 - 1 / 2 ^ 39"
  proof (cases "p \<le> 9000 - 1 / 2 ^ 39")
    case True
    then have "p \<le> of_int (9000 * 2 ^ 39 - 1) * 2 powi (- 39)" by (simp only: y)
    from to_double_le [OF this u] show ?thesis by (simp only: y)
  next
    case False
    then have "2 powi 13 \<le> \<bar>p\<bar>" by simp
    moreover from hi lo have "\<bar>p\<bar> < 2 powi (13 + 1)" by simp
    ultimately have "exponent p = 13" by (rule exponent_eq)
    then have ulp: "ulp p = 1 / 2 ^ 39"
      by (simp add: ulp_def ulp_exponent_def power_int_minus_divide)
    from hi have "p * 2 ^ 39 \<le> (9000 - 9000 / 2 ^ 53) * 2 ^ 39"
      by (rule mult_right_mono) simp
    then have "p / ulp p < of_int (9000 * 2 ^ 39 - 1) + 1 / 2"
      by (simp add: ulp)
    then have "round_even (p / ulp p) \<le> 9000 * 2 ^ 39 - 1" by (rule round_even_below_half)
    then have "(of_int (round_even (p / ulp p)) :: rat) \<le> of_int (9000 * 2 ^ 39 - 1)"
      by (simp only: of_int_le_iff)
    then have "of_int (round_even (p / ulp p)) * (1 / 2 ^ 39) \<le> of_int (9000 * 2 ^ 39 - 1) * (1 / 2 ^ 39 :: rat)"
      by (rule mult_right_mono) simp
    then show ?thesis by (simp add: to_double_def ulp)
  qed
  with low show ?thesis by (simp add: p_def)
qed

lemma sum_bounds:
  assumes "0 \<le> p" and "p \<le> 9000 - 1 / 2 ^ 39"
  shows "1000 \<le> to_double (1000 + p) \<and> to_double (1000 + p) \<le> 10000 - 1 / 2 ^ 39"
proof -
  have y: "of_int (10000 * 2 ^ 39 - 1) * 2 powi (- 39) = (10000 - 1 / 2 ^ 39 :: rat)"
    by (simp add: power_int_minus_divide)
  from assms have "\<bar>1000 + p\<bar> < 2 powi (13 + 1)" by simp
  from ulp_exponent_le [OF this] have u: "ulp_exponent (1000 + p) \<le> - 39" by simp
  then have u0: "ulp_exponent (1000 + p) \<le> 0" by simp
  have "of_int 1000 * 2 powi 0 \<le> 1000 + p" using assms(1) by simp
  from to_double_ge [OF this u0] have lo: "1000 \<le> to_double (1000 + p)" by simp
  from assms(2) have "1000 + p \<le> 10000 - 1 / 2 ^ 39" by simp
  then have "1000 + p \<le> of_int (10000 * 2 ^ 39 - 1) * 2 powi (- 39)"
    by (simp only: y)
  from to_double_le [OF this u] have "to_double (1000 + p) \<le> 10000 - 1 / 2 ^ 39"
    by (simp only: y)
  with lo show ?thesis by simp
qed

lemma floor_draw:
  assumes "is_double r" and "0 \<le> r" and "r < 1"
  shows "1000 \<le> \<lfloor>to_double (1000 + to_double (r * 9000))\<rfloor>
    \<and> \<lfloor>to_double (1000 + to_double (r * 9000))\<rfloor> \<le> 9999"
proof -
  define s where "s = to_double (1000 + to_double (r * 9000))"
  from product_bounds [OF assms]
  have "0 \<le> to_double (r * 9000)" "to_double (r * 9000) \<le> 9000 - 1 / 2 ^ 39" by simp_all
  from sum_bounds [OF this] have s: "1000 \<le> s" "s \<le> 10000 - 1 / 2 ^ 39" by (simp_all add: s_def)
  from s(1) have lo: "1000 \<le> \<lfloor>s\<rfloor>" by (simp add: le_floor_iff)
  from s(2) have "s < 10000" by simp
  then have "\<lfloor>s\<rfloor> < 10000" by (simp add: floor_less_iff)
  with lo show ?thesis unfolding s_def by simp
qed

text \<open>Where no rounding happens: a random value that is a multiple of \<open>2\<^sup>-\<^sup>1\<^sup>4\<close>.\<close>

lemma exact_draw:
  assumes "0 \<le> m" and "m < 2 ^ 14"
  shows "is_double (of_int m / 2 ^ 14) \<and> 0 \<le> (of_int m / 2 ^ 14 :: rat) \<and> (of_int m / 2 ^ 14 :: rat) < 1
    \<and> to_double (1000 + to_double (of_int m / 2 ^ 14 * 9000)) = 1000 + of_int m / 2 ^ 14 * 9000"
proof -
  from assms(2) have "(of_int m :: rat) < of_int (2 ^ 14)" by (simp only: of_int_less_iff)
  with assms(1) have m: "(0::rat) \<le> of_int m" "(of_int m :: rat) < 2 ^ 14"
    by simp_all
  have r: "(of_int m / 2 ^ 14 :: rat) = of_int m * 2 powi (- 14)"
    by (simp add: power_int_minus_divide)
  from m have "\<bar>of_int m / 2 ^ 14 :: rat\<bar> < 2 powi (0 + 1)" by simp
  from ulp_exponent_le [OF this] have "ulp_exponent (of_int m / 2 ^ 14) \<le> - 14" by simp
  from to_double_exact [OF r this] have d: "is_double (of_int m / 2 ^ 14)"
    by (simp add: is_double_def)
  have p: "(of_int m / 2 ^ 14 * 9000 :: rat) = of_int (m * 9000) * 2 powi (- 14)"
    by (simp add: power_int_minus_divide)
  from m have "\<bar>of_int m / 2 ^ 14 * 9000 :: rat\<bar> < 2 powi (13 + 1)" by simp
  from ulp_exponent_le [OF this] have "ulp_exponent (of_int m / 2 ^ 14 * 9000) \<le> - 14" by simp
  from to_double_exact [OF p this]
  have tp: "to_double (of_int m / 2 ^ 14 * 9000) = of_int m / 2 ^ 14 * 9000" .
  have s: "(1000 + of_int m / 2 ^ 14 * 9000 :: rat) = of_int (1000 * 2 ^ 14 + m * 9000) * 2 powi (- 14)"
    by (simp add: power_int_minus_divide field_simps)
  from m have "\<bar>1000 + of_int m / 2 ^ 14 * 9000 :: rat\<bar> < 2 powi (13 + 1)" by simp
  from ulp_exponent_le [OF this]
  have "ulp_exponent (1000 + of_int m / 2 ^ 14 * 9000) \<le> - 14" by simp
  from to_double_exact [OF s this]
  have "to_double (1000 + of_int m / 2 ^ 14 * 9000) = 1000 + of_int m / 2 ^ 14 * 9000" .
  then have ts: "to_double (1000 + to_double (of_int m / 2 ^ 14 * 9000))
      = 1000 + of_int m / 2 ^ 14 * 9000"
    by (simp only: tp)
  from m have "0 \<le> (of_int m / 2 ^ 14 :: rat)" "(of_int m / 2 ^ 14 :: rat) < 1" by simp_all
  with d ts show ?thesis by blast
qed

lemma draw_digits:
  assumes "is_double r" and "0 \<le> r" and "r < 1"
  shows "draw r = digits (nat \<lfloor>to_double (1000 + to_double (r * 9000))\<rfloor>)
    \<and> 1000 \<le> nat \<lfloor>to_double (1000 + to_double (r * 9000))\<rfloor>
    \<and> nat \<lfloor>to_double (1000 + to_double (r * 9000))\<rfloor> \<le> 9999"
proof -
  define z where "z = \<lfloor>to_double (1000 + to_double (r * 9000))\<rfloor>"
  have z: "1000 \<le> z" "z \<le> 9999" using floor_draw [OF assms] by (simp_all add: z_def)
  then have "toString z = digits (nat z)" "1000 \<le> nat z" "nat z \<le> 9999"
    by (simp_all add: toString_def)
  then show ?thesis unfolding draw_def z_def by simp
qed

lemma draw_is_code:
  assumes "is_double r" and "0 \<le> r" and "r < 1"
  shows "is_code (draw r) \<and> hd (draw r) \<noteq> CHR ''0''"
  using draw_digits [OF assms]
  by (simp add: is_code_def digits_4 list_all_isDigit_digits numeric_value_digits)

lemma toString_eval:
  "toString 1000 = ''1000''" "toString 1001 = ''1001''" "toString 5500 = ''5500''"
  by (simp_all add: toString_def digits.simps digit_char_eval)

lemma to_double_eval:
  "to_double 0 = 0" "to_double 1000 = 1000" "to_double 4500 = 4500" "to_double 5500 = 5500"
  using to_double_of_int [of 0] to_double_of_int [of 1000] to_double_of_int [of 4500]
    to_double_of_int [of 5500]
  by simp_all

lemma draw_0: "draw 0 = ''1000''"
  by (simp add: draw_def to_double_eval toString_eval)

lemma draw_half: "draw (1 / 2) = ''5500''"
  by (simp add: draw_def to_double_eval toString_eval)

lemma is_double_eval: "is_double 0" "is_double (1 / 2)"
  using to_double_eval(1) exact_draw [of 8192] by (simp_all add: is_double_def)

text \<open>
  The source \<open>fair_random\<close>: its values are doubles in range, call \<open>k\<close> draws the code
  \<open>1000 + k mod 9000\<close>, and so it keeps drawing every code.
\<close>

lemma fair_random_draw:
  "is_double (fair_random k) \<and> 0 \<le> fair_random k \<and> fair_random k < 1
   \<and> draw (fair_random k) = toString (1000 + int (k mod 9000))"
proof -
  define a :: rat where "a = of_nat (k mod 9000)"
  define m where "m = \<lceil>a * 2 ^ 14 / 9000\<rceil>"
  have "k mod 9000 < 9000" by simp
  then have "k mod 9000 \<le> 8999" by linarith
  then have "(of_nat (k mod 9000) :: rat) \<le> of_nat 8999" by (simp only: of_nat_le_iff)
  then have a: "0 \<le> a" "a \<le> 8999" by (simp_all add: a_def)
  from a(1) have "0 \<le> a * 2 ^ 14 / 9000" by simp
  then have m0: "0 \<le> m" unfolding m_def by (simp add: ceiling_le_iff le_ceiling_iff)
  from a(2) have "a * 2 ^ 14 / 9000 \<le> of_int 16383" by simp
  then have "m \<le> 16383" unfolding m_def by (simp only: ceiling_le_iff)
  then have m1: "m < 2 ^ 14" by simp
  have lo: "a * 2 ^ 14 / 9000 \<le> of_int m" unfolding m_def by (rule le_of_int_ceiling)
  have hi: "of_int m < a * 2 ^ 14 / 9000 + 1" unfolding m_def by linarith
  define x :: rat where "x = of_int m / 2 ^ 14 * 9000"
  from lo have x0: "a \<le> x" by (simp add: x_def field_simps)
  from hi have x1: "x < a + 1" by (simp add: x_def field_simps)
  have ai: "a = of_int (int (k mod 9000))" by (simp add: a_def)
  have "\<lfloor>1000 + x\<rfloor> = 1000 + int (k mod 9000)"
  proof (rule floor_unique)
    show "of_int (1000 + int (k mod 9000)) \<le> 1000 + x" using x0 by (simp add: a_def)
    show "1000 + x < of_int (1000 + int (k mod 9000)) + 1" using x1 by (simp add: a_def)
  qed
  moreover from exact_draw [OF m0 m1]
  have e: "is_double (of_int m / 2 ^ 14)" "0 \<le> (of_int m / 2 ^ 14 :: rat)"
    "(of_int m / 2 ^ 14 :: rat) < 1"
    "to_double (1000 + to_double (of_int m / 2 ^ 14 * 9000)) = 1000 + x"
    by (simp_all only: x_def)
  moreover have "fair_random k = of_int m / 2 ^ 14"
    by (simp only: fair_random_def m_def a_def)
  ultimately show ?thesis by (simp only: draw_def)
qed

lemma in_range_fair_random: "in_range fair_random"
  using fair_random_draw by (simp add: in_range_def)

lemma fair_fair_random: "fair fair_random"
  unfolding fair_def
proof (intro allI impI)
  fix n :: int and i :: nat
  assume n: "1000 \<le> n \<and> n \<le> 9999"
  define k where "k = 9000 * i + nat (n - 1000)"
  from n have "nat (n - 1000) < 9000" by linarith
  then have "k mod 9000 = nat (n - 1000)" by (simp add: k_def)
  with n have "1000 + int (k mod 9000) = n" by simp
  with fair_random_draw [of k] have "draw (fair_random k) = toString n" by simp
  moreover have "i \<le> k" by (simp add: k_def)
  ultimately show "\<exists>k\<ge>i. draw (fair_random k) = toString n" by blast
qed

subsection \<open>The generation loop\<close>

lemma gen_free: "\<not> has m (draw (rnd i)) \<Longrightarrow> generateCode m rnd i = Some (draw (rnd i), Suc i)"
  by (subst generateCode.simps) simp

lemma gen_taken: "has m (draw (rnd i)) \<Longrightarrow> generateCode m rnd i = generateCode m rnd (Suc i)"
  by (subst generateCode.simps) simp

text \<open>
  What the loop returns: the first draw, from call \<open>i\<close> on, that is not a key.
\<close>

lemma gen_Some_D:
  assumes "generateCode m rnd i = Some y"
  shows "\<exists>k\<ge>i. y = (draw (rnd k), Suc k) \<and> \<not> has m (draw (rnd k))
           \<and> (\<forall>j. i \<le> j \<and> j < k \<longrightarrow> has m (draw (rnd j)))"
proof (rule generateCode.raw_induct [where m = m and rnd = rnd and i = i and y = y and
      P = "\<lambda>m rnd i y. \<exists>k\<ge>i. y = (draw (rnd k), Suc k) \<and> \<not> has m (draw (rnd k))
           \<and> (\<forall>j. i \<le> j \<and> j < k \<longrightarrow> has m (draw (rnd j)))"])
  show "generateCode m rnd i = Some y" by (fact assms)
next
  fix gen :: "registry \<Rightarrow> (nat \<Rightarrow> rat) \<Rightarrow> nat \<Rightarrow> (string \<times> nat) option" and m rnd i y
  assume IH: "\<And>m rnd i y. gen m rnd i = Some y \<Longrightarrow>
      \<exists>k\<ge>i. y = (draw (rnd k), Suc k) \<and> \<not> has m (draw (rnd k))
           \<and> (\<forall>j. i \<le> j \<and> j < k \<longrightarrow> has m (draw (rnd j)))"
    and body: "(if has m (draw (rnd i)) then gen m rnd (Suc i)
        else Some (draw (rnd i), Suc i)) = Some y"
  show "\<exists>k\<ge>i. y = (draw (rnd k), Suc k) \<and> \<not> has m (draw (rnd k))
           \<and> (\<forall>j. i \<le> j \<and> j < k \<longrightarrow> has m (draw (rnd j)))"
  proof (cases "has m (draw (rnd i))")
    case True
    with body have "gen m rnd (Suc i) = Some y" by simp
    from IH [OF this] obtain k where
      k: "Suc i \<le> k" "y = (draw (rnd k), Suc k)" "\<not> has m (draw (rnd k))"
        "\<forall>j. Suc i \<le> j \<and> j < k \<longrightarrow> has m (draw (rnd j))" by blast
    have "\<forall>j. i \<le> j \<and> j < k \<longrightarrow> has m (draw (rnd j))"
    proof (intro allI impI)
      fix j assume j: "i \<le> j \<and> j < k"
      show "has m (draw (rnd j))"
      proof (cases "j = i")
        case True
        with \<open>has m (draw (rnd i))\<close> show ?thesis by simp
      next
        case False
        with j have "Suc i \<le> j \<and> j < k" by simp
        with k(4) show ?thesis by blast
      qed
    qed
    moreover have "i \<le> k" using k(1) by simp
    ultimately show ?thesis using k(2,3) by blast
  next
    case False
    with body have "y = (draw (rnd i), Suc i)" by simp
    with False show ?thesis by (intro exI [of _ i]) auto
  qed
qed

lemma gen_terminates:
  "i \<le> k \<Longrightarrow> \<not> has m (draw (rnd k)) \<Longrightarrow> \<exists>y. generateCode m rnd i = Some y"
proof (induction "k - i" arbitrary: i)
  case 0
  then have "k = i" by simp
  with 0 show ?case by (simp add: gen_free)
next
  case (Suc d)
  show ?case
  proof (cases "has m (draw (rnd i))")
    case True
    from Suc have "d = k - Suc i" "Suc i \<le> k" by simp_all
    from Suc.hyps(1) [OF this Suc.prems(2)] obtain y where "generateCode m rnd (Suc i) = Some y" ..
    moreover from True have "generateCode m rnd i = generateCode m rnd (Suc i)" by (rule gen_taken)
    ultimately show ?thesis by simp
  next
    case False
    then show ?thesis by (simp add: gen_free)
  qed
qed

lemma gen_fresh: "generateCode m rnd i = Some (c, i') \<Longrightarrow> \<not> has m c"
  by (drule gen_Some_D) auto

lemma gen_is_code:
  assumes "in_range rnd" and "generateCode m rnd i = Some (c, i')"
  shows "is_code c \<and> hd c \<noteq> CHR ''0''"
proof -
  from gen_Some_D [OF assms(2)] obtain k where "c = draw (rnd k)" by auto
  moreover have "is_double (rnd k)" "0 \<le> rnd k" "rnd k < 1"
    using assms(1) by (simp_all add: in_range_def)
  ultimately show ?thesis by (simp add: draw_is_code)
qed

lemma full_iff: "full m \<longleftrightarrow> (\<forall>n::int. 1000 \<le> n \<and> n \<le> 9999 \<longrightarrow> has m (toString n))"
proof
  assume f: "full m"
  show "\<forall>n::int. 1000 \<le> n \<and> n \<le> 9999 \<longrightarrow> has m (toString n)"
  proof (intro allI impI)
    fix n :: int
    assume "1000 \<le> n \<and> n \<le> 9999"
    then have "nat n \<in> {1000..<10000}" "int (nat n) = n" by auto
    moreover from f have "\<forall>k\<in>{1000..<10000}. has m (toString (int k))"
      unfolding full_def by (simp only: list_all_iff set_upt)
    ultimately show "has m (toString n)" by metis
  qed
next
  assume a: "\<forall>n::int. 1000 \<le> n \<and> n \<le> 9999 \<longrightarrow> has m (toString n)"
  have "has m (toString (int k))" if "k \<in> {1000..<10000}" for k
    using that a by auto
  then show "full m"
    unfolding full_def by (simp only: list_all_iff set_upt) blast
qed

lemma full_never_returns:
  assumes "full m" and "in_range rnd"
  shows "generateCode m rnd i = None"
proof (rule ccontr)
  assume "generateCode m rnd i \<noteq> None"
  then obtain y where "generateCode m rnd i = Some y" by auto
  from gen_Some_D [OF this] obtain k where k: "\<not> has m (draw (rnd k))" by auto
  have "is_double (rnd k)" "0 \<le> rnd k" "rnd k < 1"
    using assms(2) by (simp_all add: in_range_def)
  from floor_draw [OF this] assms(1) have "has m (draw (rnd k))"
    unfolding full_iff draw_def by blast
  with k show False by simp
qed

text \<open>The codes are 9000 different strings, so fewer than 9000 keys leave one of them free.\<close>

lemma toString_inj:
  assumes "0 \<le> a" and "0 \<le> b" and "toString a = toString b"
  shows "a = b"
proof -
  from assms have "digits (nat a) = digits (nat b)" by (simp add: toString_def)
  then have "numeric_value (digits (nat a)) = numeric_value (digits (nat b))" by simp
  then have "nat a = nat b" by (simp add: numeric_value_digits)
  with assms(1,2) show ?thesis by simp
qed

lemma full_size:
  assumes "full m"
  shows "9000 \<le> size_of m"
proof -
  have inj: "inj_on toString {1000..9999::int}"
    by (rule inj_onI) (auto intro: toString_inj)
  have sub: "toString ` {1000..9999::int} \<subseteq> fmdom' m"
    using assms by (auto simp: full_iff has_def fmlookup_dom'_iff)
  have "card (toString ` {1000..9999::int}) = 9000"
    by (simp add: card_image [OF inj])
  moreover have "card (toString ` {1000..9999::int}) \<le> card (fmdom' m)"
    by (rule card_mono [OF _ sub]) simp
  ultimately show ?thesis by (simp add: size_of_def fcard.rep_eq fmdom'_alt_def)
qed

text \<open>With a source that keeps drawing every code, the loop returns unless the registry is full.\<close>

lemma fair_free_draw:
  assumes "fair rnd" and "\<not> full m"
  shows "\<exists>k\<ge>i. \<not> has m (draw (rnd k))"
proof -
  from assms(2) obtain n :: int where n: "1000 \<le> n \<and> n \<le> 9999" "\<not> has m (toString n)"
    by (auto simp: full_iff)
  from assms(1) n(1) obtain k where "i \<le> k" "draw (rnd k) = toString n"
    unfolding fair_def by blast
  with n(2) show ?thesis by auto
qed

lemma fair_returns:
  assumes "fair rnd" and "\<not> full m"
  shows "\<exists>y. generateCode m rnd i = Some y"
proof -
  from fair_free_draw [OF assms] obtain k where k: "i \<le> k" "\<not> has m (draw (rnd k))" by blast
  show ?thesis by (rule gen_terminates [of i k m rnd, OF k])
qed

subsection \<open>The handlers\<close>

lemma upload_Some:
  assumes "handleFileUpload (Some f) (s, b) = Some (s', b')"
  obtains c i' where
    "generateCode (fileShares s) (random b) (randomCalls b) = Some (c, i')"
    "s' = s\<lparr>fileShares := set_entry (fileShares s) c
                 \<lparr>code = c, file' = f, url = objectURL b (objectURLCalls b)\<rparr>,
             uploadedCode := c, error := []\<rparr>"
    "b' = b\<lparr>randomCalls := i', objectURLCalls := Suc (objectURLCalls b)\<rparr>"
  using assms by (auto simp: handleFileUpload_def Let_def split: option.splits)

lemma upload_None: "handleFileUpload None w = Some w"
  by (cases w) (simp add: handleFileUpload_def)

text \<open>An upload of a file returns when a draw from the current call on is not a key.\<close>

lemma upload_returns:
  assumes "randomCalls b \<le> k" and "\<not> has (fileShares s) (draw (random b k))"
  shows "\<exists>s' b'. handleFileUpload (Some f) (s, b) = Some (s', b')"
proof -
  from gen_terminates [of "randomCalls b" k "fileShares s" "random b", OF assms]
  obtain c i' where
    "generateCode (fileShares s) (random b) (randomCalls b) = Some (c, i')" by auto
  then show ?thesis by (simp add: handleFileUpload_def Let_def)
qed

lemma upload_never_returns:
  assumes "full (fileShares s)" and "in_range (random b)"
  shows "handleFileUpload (Some f) (s, b) = None"
  using full_never_returns [OF assms] by (simp add: handleFileUpload_def)

text \<open>What an upload with a file changes, and what it leaves.\<close>

lemma upload_registry:
  assumes "handleFileUpload (Some f) (s, b) = Some (s', b')"
  shows "\<not> has (fileShares s) (uploadedCode s')"
    and "fileShares s' = set_entry (fileShares s) (uploadedCode s')
           \<lparr>code = uploadedCode s', file' = f, url = objectURL b (objectURLCalls b)\<rparr>"
proof -
  from assms obtain c i' where
    g: "generateCode (fileShares s) (random b) (randomCalls b) = Some (c, i')"
    and s': "s' = s\<lparr>fileShares := set_entry (fileShares s) c
                 \<lparr>code = c, file' = f, url = objectURL b (objectURLCalls b)\<rparr>,
             uploadedCode := c, error := []\<rparr>"
    by (rule upload_Some)
  from s' have c: "uploadedCode s' = c" by simp
  from gen_fresh [OF g] c show "\<not> has (fileShares s) (uploadedCode s')" by simp
  from s' c show "fileShares s' = set_entry (fileShares s) (uploadedCode s')
           \<lparr>code = uploadedCode s', file' = f, url = objectURL b (objectURLCalls b)\<rparr>"
    by simp
qed

lemma upload_rest:
  assumes "handleFileUpload (Some f) (s, b) = Some (s', b')"
  shows "error s' = [] \<and> view s' = view s \<and> downloadCode s' = downloadCode s
    \<and> copied s' = copied s \<and> isDragging s' = isDragging s
    \<and> random b' = random b \<and> randomCalls b < randomCalls b'
    \<and> objectURL b' = objectURL b \<and> objectURLCalls b' = Suc (objectURLCalls b)
    \<and> clipboard b' = clipboard b \<and> downloads b' = downloads b"
proof -
  from assms obtain c i' where
    g: "generateCode (fileShares s) (random b) (randomCalls b) = Some (c, i')"
    and s': "s' = s\<lparr>fileShares := set_entry (fileShares s) c
                 \<lparr>code = c, file' = f, url = objectURL b (objectURLCalls b)\<rparr>,
             uploadedCode := c, error := []\<rparr>"
    and b': "b' = b\<lparr>randomCalls := i', objectURLCalls := Suc (objectURLCalls b)\<rparr>"
    by (rule upload_Some)
  from gen_Some_D [OF g] have "randomCalls b < i'" by auto
  with s' b' show ?thesis by simp
qed

lemma upload_is_code:
  assumes "handleFileUpload (Some f) (s, b) = Some (s', b')" and "in_range (random b)"
  shows "is_code (uploadedCode s')"
proof -
  from assms(1) obtain c i' where
    g: "generateCode (fileShares s) (random b) (randomCalls b) = Some (c, i')"
    and s': "s' = s\<lparr>fileShares := set_entry (fileShares s) c
                 \<lparr>code = c, file' = f, url = objectURL b (objectURLCalls b)\<rparr>,
             uploadedCode := c, error := []\<rparr>"
    by (rule upload_Some)
  from gen_is_code [OF assms(2) g] s' show ?thesis by simp
qed

lemma set_entry_fresh:
  assumes "\<not> has m c"
  shows "size_of (set_entry m c x) = Suc (size_of m)"
    and "get m k = Some y \<Longrightarrow> get (set_entry m c x) k = Some y"
    and "fmdom' (set_entry m c x) = insert c (fmdom' m)"
  using assms
  by (auto simp: size_of_def set_entry_def has_def get_def fcard_finsert_if fmlookup_dom_iff)

lemma handleDownload_registry: "fileShares (fst (handleDownload (s, b))) = fileShares s"
  by (simp add: handleDownload_def split: option.splits)

text \<open>
  An event that is not an upload of a file leaves the registry as it is; an upload adds one
  entry under the code it shows, which was not a key.
\<close>

lemma handle_registry:
  assumes "handle e (s, b) = Some (s', b')"
  shows "if is_upload e
         then \<not> has (fileShares s) (uploadedCode s')
              \<and> (\<exists>x. fileShares s' = set_entry (fileShares s) (uploadedCode s') x)
         else fileShares s' = fileShares s"
proof (cases e)
  case (SelectFile fo)
  show ?thesis
  proof (cases fo)
    case None
    with SelectFile assms show ?thesis by (simp add: handleFileSelect_def)
  next
    case (Some f)
    with SelectFile assms have "handleFileUpload (Some f) (s, b) = Some (s', b')"
      by (simp add: handleFileSelect_def)
    from upload_registry [OF this] SelectFile Some show ?thesis by auto
  qed
next
  case (Drop fo)
  show ?thesis
  proof (cases fo)
    case None
    with Drop assms show ?thesis by (auto simp: handleDrop_def)
  next
    case (Some f)
    with Drop assms
    have "handleFileUpload (Some f) (s\<lparr>isDragging := False\<rparr>, b) = Some (s', b')"
      by (simp add: handleDrop_def)
    from upload_registry [OF this] Drop Some show ?thesis by auto
  qed
next
  case ClickDownload
  with assms have "(s', b') = handleDownload (s, b)" by simp
  then have "s' = fst (handleDownload (s, b))" by (metis fst_conv)
  with ClickDownload show ?thesis by (simp add: handleDownload_registry)
qed (use assms in \<open>auto simp: clickUploadTab_def clickDownloadTab_def handleDragOver_def
      handleDragLeave_def copyCode_def clickUploadAnother_def changeDownloadCode_def\<close>)

lemma step_registry:
  assumes "step e w = Some w'"
  shows "if enabled (fst w) e \<and> is_upload e
         then \<not> has (fileShares (fst w)) (uploadedCode (fst w'))
              \<and> (\<exists>x. fileShares (fst w') = set_entry (fileShares (fst w)) (uploadedCode (fst w')) x)
         else fileShares (fst w') = fileShares (fst w)"
proof (cases "enabled (fst w) e")
  case True
  with assms have "handle e (fst w, snd w) = Some (fst w', snd w')" by (simp add: step_def)
  from handle_registry [OF this] True show ?thesis by simp
next
  case False
  with assms show ?thesis by (auto simp: step_def)
qed

lemma step_keeps:
  assumes "step e w = Some w'"
  shows "size_of (fileShares (fst w)) \<le> size_of (fileShares (fst w'))"
    and "get (fileShares (fst w)) k = Some y \<Longrightarrow> get (fileShares (fst w')) k = Some y"
  using step_registry [OF assms]
  by (auto simp: set_entry_fresh split: if_splits)

lemma run_keeps:
  assumes "run es w = Some w'"
  shows "size_of (fileShares (fst w)) \<le> size_of (fileShares (fst w'))
    \<and> (get (fileShares (fst w)) k = Some y \<longrightarrow> get (fileShares (fst w')) k = Some y)"
  using assms
proof (induction es arbitrary: w)
  case Nil
  then show ?case by simp
next
  case (Cons e es)
  from Cons.prems obtain w1 where w1: "step e w = Some w1" "run es w1 = Some w'"
    by (auto split: option.splits)
  from step_keeps [OF w1(1)] Cons.IH [OF w1(2)] show ?case by fastforce
qed

text \<open>The keys of the registry after a session: those before it and the codes assigned.\<close>

lemma run_assigned:
  assumes "run es w = Some w'"
  shows "distinct (assigned es w)
    \<and> set (assigned es w) \<inter> fmdom' (fileShares (fst w)) = {}
    \<and> fmdom' (fileShares (fst w')) = fmdom' (fileShares (fst w)) \<union> set (assigned es w)"
  using assms
proof (induction es arbitrary: w)
  case Nil
  then show ?case by simp
next
  case (Cons e es)
  from Cons.prems obtain w1 where w1: "step e w = Some w1" "run es w1 = Some w'"
    by (auto split: option.splits)
  note IH = Cons.IH [OF w1(2)]
  show ?case
  proof (cases "enabled (fst w) e \<and> is_upload e")
    case True
    with step_registry [OF w1(1)] obtain x where
      fresh: "\<not> has (fileShares (fst w)) (uploadedCode (fst w1))"
      and upd: "fileShares (fst w1) = set_entry (fileShares (fst w)) (uploadedCode (fst w1)) x"
      by auto
    from set_entry_fresh(3) [OF fresh] upd
    have dom1: "fmdom' (fileShares (fst w1))
        = insert (uploadedCode (fst w1)) (fmdom' (fileShares (fst w)))"
      by simp
    from fresh have notin: "uploadedCode (fst w1) \<notin> fmdom' (fileShares (fst w))"
      by (simp add: has_def fmlookup_dom'_iff)
    have a: "assigned (e # es) w = uploadedCode (fst w1) # assigned es w1"
      using True w1(1) by simp
    from IH dom1 notin show ?thesis unfolding a by auto
  next
    case False
    with step_registry [OF w1(1)] have same: "fileShares (fst w1) = fileShares (fst w)"
      by auto
    have a: "assigned (e # es) w = assigned es w1"
      using False w1(1) by auto
    from IH same show ?thesis unfolding a by simp
  qed
qed

subsection \<open>What every session keeps\<close>

lemma handle_random:
  assumes "handle e (s, b) = Some (s', b')"
  shows "random b' = random b"
proof (cases e)
  case (SelectFile fo)
  with assms show ?thesis
    by (cases fo) (auto simp: handleFileSelect_def dest: upload_rest)
next
  case (Drop fo)
  with assms show ?thesis
    by (cases fo) (auto simp: handleDrop_def dest: upload_rest)
qed (use assms in \<open>auto simp: copyCode_def handleDownload_def split: option.splits\<close>)

lemma handle_error:
  assumes "handle e (s, b) = Some (s', b')"
    and "error s = [] \<or> error s = invalid_code_message"
  shows "error s' = [] \<or> error s' = invalid_code_message"
proof (cases e)
  case (SelectFile fo)
  with assms show ?thesis
    by (cases fo) (auto simp: handleFileSelect_def dest: upload_rest)
next
  case (Drop fo)
  with assms show ?thesis
    by (cases fo) (auto simp: handleDrop_def dest: upload_rest)
qed (use assms in \<open>auto simp: clickUploadTab_def clickDownloadTab_def handleDragOver_def
      handleDragLeave_def copyCode_def clickUploadAnother_def changeDownloadCode_def
      handleDownload_def split: option.splits\<close>)

lemma typed_code: "list_all isDigit (take 4 (filter isDigit typed)) \<and> length (take 4 (filter isDigit typed)) \<le> 4"
proof -
  have "list_all isDigit (filter isDigit typed)" by (simp add: list_all_iff)
  then have "list_all isDigit (take 4 (filter isDigit typed))"
    by (auto simp: list_all_iff dest: in_set_takeD)
  then show ?thesis by simp
qed

lemma handle_downloadCode:
  assumes "handle e (s, b) = Some (s', b')"
    and "list_all isDigit (downloadCode s) \<and> length (downloadCode s) \<le> 4"
  shows "list_all isDigit (downloadCode s') \<and> length (downloadCode s') \<le> 4"
proof (cases e)
  case (SelectFile fo)
  with assms show ?thesis
    by (cases fo) (auto simp: handleFileSelect_def dest: upload_rest)
next
  case (Drop fo)
  with assms show ?thesis
    by (cases fo) (auto simp: handleDrop_def dest: upload_rest)
next
  case (TypeCode typed)
  with assms(1) have "downloadCode s' = take 4 (filter isDigit typed)"
    by (auto simp: changeDownloadCode_def)
  with typed_code [of typed] show ?thesis by simp
qed (use assms in \<open>auto simp: clickUploadTab_def clickDownloadTab_def handleDragOver_def
      handleDragLeave_def copyCode_def clickUploadAnother_def
      handleDownload_def split: option.splits\<close>)

lemma handle_uploadedCode:
  assumes "handle e (s, b) = Some (s', b')" and "in_range (random b)"
    and "uploadedCode s = [] \<or> is_code (uploadedCode s)"
  shows "uploadedCode s' = [] \<or> is_code (uploadedCode s')"
proof (cases e)
  case (SelectFile fo)
  with assms show ?thesis
    by (cases fo) (auto simp: handleFileSelect_def dest: upload_is_code)
next
  case (Drop fo)
  with assms show ?thesis
    by (cases fo) (auto simp: handleDrop_def dest: upload_is_code)
qed (use assms in \<open>auto simp: clickUploadTab_def clickDownloadTab_def handleDragOver_def
      handleDragLeave_def copyCode_def clickUploadAnother_def changeDownloadCode_def
      handleDownload_def split: option.splits\<close>)

text \<open>
  In every state a session reaches: the error shown is none or the one message; the code
  entered is at most four digits; and, with a random source in range, the code shown is
  none or a code.
\<close>

lemma run_invariant:
  assumes "run es (s, b) = Some (s', b')"
    and "error s = [] \<or> error s = invalid_code_message"
    and "list_all isDigit (downloadCode s) \<and> length (downloadCode s) \<le> 4"
  shows "(error s' = [] \<or> error s' = invalid_code_message)
    \<and> list_all isDigit (downloadCode s') \<and> length (downloadCode s') \<le> 4
    \<and> random b' = random b
    \<and> (in_range (random b) \<and> (uploadedCode s = [] \<or> is_code (uploadedCode s))
        \<longrightarrow> uploadedCode s' = [] \<or> is_code (uploadedCode s'))"
  using assms
proof (induction es arbitrary: s b)
  case Nil
  then show ?case by simp
next
  case (Cons e es)
  from Cons.prems(1) obtain s1 b1 where
    w1: "step e (s, b) = Some (s1, b1)" "run es (s1, b1) = Some (s', b')"
    by (auto split: option.splits)
  have one: "(error s1 = [] \<or> error s1 = invalid_code_message)
    \<and> (list_all isDigit (downloadCode s1) \<and> length (downloadCode s1) \<le> 4)
    \<and> random b1 = random b
    \<and> (in_range (random b) \<and> (uploadedCode s = [] \<or> is_code (uploadedCode s))
        \<longrightarrow> uploadedCode s1 = [] \<or> is_code (uploadedCode s1))"
  proof (cases "enabled s e")
    case True
    with w1(1) have h: "handle e (s, b) = Some (s1, b1)" by (simp add: step_def)
    from handle_error [OF h Cons.prems(2)] handle_downloadCode [OF h Cons.prems(3)]
      handle_random [OF h] handle_uploadedCode [OF h]
    show ?thesis by blast
  next
    case False
    with w1(1) Cons.prems(2,3) show ?thesis by (auto simp: step_def)
  qed
  from one have e1: "error s1 = [] \<or> error s1 = invalid_code_message"
    and d1: "list_all isDigit (downloadCode s1) \<and> length (downloadCode s1) \<le> 4"
    by blast+
  from Cons.IH [OF w1(2) e1 d1] one show ?case by auto
qed

lemma run_from_initial:
  assumes "run es (initial, b) = Some (s', b')"
  shows "(error s' = [] \<or> error s' = invalid_code_message)
    \<and> list_all isDigit (downloadCode s') \<and> length (downloadCode s') \<le> 4
    \<and> (in_range (random b) \<longrightarrow> uploadedCode s' = [] \<or> is_code (uploadedCode s'))"
  using run_invariant [OF assms] by (simp add: initial_def)

subsection \<open>The example session\<close>

lemma in_range_example: "in_range (random example_browser)"
  by (simp add: in_range_def example_browser_def is_double_eval)

lemma has_one_entry: "has one_entry c = (c = ''1000'')"
  by (auto simp: one_entry_def has_def set_entry_def)

lemma gen_example_one_entry:
  "generateCode one_entry (random example_browser) 0 = Some (''5500'', 3)"
proof -
  have r: "random example_browser 0 = 0" "random example_browser (Suc 0) = 0"
    "random example_browser (Suc (Suc 0)) = 1 / 2"
    by (simp_all add: example_browser_def)
  have "generateCode one_entry (random example_browser) 0
      = generateCode one_entry (random example_browser) (Suc 0)"
    by (rule gen_taken) (simp add: r draw_0 has_one_entry)
  also have "\<dots> = generateCode one_entry (random example_browser) (Suc (Suc 0))"
    by (rule gen_taken) (simp add: r draw_0 has_one_entry)
  also have "\<dots> = Some (draw (random example_browser (Suc (Suc 0))), Suc (Suc (Suc 0)))"
    by (rule gen_free) (simp add: r draw_half has_one_entry)
  finally show ?thesis by (simp add: r draw_half)
qed

lemma dom_fold_set_entry:
  "fmdom' (fold (\<lambda>n m. set_entry m (f n) (g n)) ns m0) = fmdom' m0 \<union> f ` set ns"
  by (induction ns arbitrary: m0) (auto simp: set_entry_def)

lemma full_all_codes: "full all_codes"
proof -
  have "has all_codes (toString n)" if "1000 \<le> n" "n \<le> 9999" for n :: int
  proof -
    from that have "nat n \<in> {1000..<10000}" "int (nat n) = n" by auto
    then have "toString n \<in> (\<lambda>k. toString (int k)) ` {1000..<10000}"
      by (metis (mono_tags, lifting) image_eqI)
    then have "toString n \<in> fmdom' all_codes"
      unfolding all_codes_def by (simp only: dom_fold_set_entry set_upt) simp
    then show ?thesis
      by (auto simp: has_def fmlookup_dom'_iff)
  qed
  then show ?thesis by (simp add: full_iff)
qed

lemma not_full_one_entry: "\<not> full one_entry"
proof
  assume "full one_entry"
  then have "has one_entry (toString 5500)" unfolding full_iff by simp
  then show False by (simp add: toString_eval has_one_entry)
qed

lemma size_of_one_entry: "size_of one_entry = 1"
  by (simp add: size_of_def one_entry_def set_entry_def fcard_finsert_if)


lemma objectURL_example:
  "objectURL example_browser 0 = ''blob:0''" "objectURL example_browser (Suc 0) = ''blob:1''"
  by (simp_all add: example_browser_def digits_lt10 digit_char_eval)

lemma example_upload_first:
  "handleFileUpload (Some report_pdf) (initial, example_browser) = Some (app1, browser1)"
proof -
  have "random example_browser 0 = 0" by (simp add: example_browser_def)
  then have "generateCode fmempty (random example_browser) 0 = Some (''1000'', 1)"
    by (simp add: gen_free has_def draw_0)
  moreover have "randomCalls example_browser = 0" "objectURLCalls example_browser = 0"
    by (simp_all add: example_browser_def)
  ultimately show ?thesis
    by (simp add: handleFileUpload_def initial_def one_entry_def objectURL_example
        app1_def browser1_def)
qed

lemma example_upload_second:
  "handleFileUpload (Some notes_txt) (app1\<lparr>uploadedCode := []\<rparr>, browser1)
     = Some (app2, browser2)"
proof -
  have r: "random example_browser (Suc 0) = 0" "random example_browser (Suc (Suc 0)) = 1 / 2"
    by (simp_all add: example_browser_def)
  have "generateCode one_entry (random example_browser) (Suc 0)
      = generateCode one_entry (random example_browser) (Suc (Suc 0))"
    by (rule gen_taken) (simp add: r draw_0 has_one_entry)
  also have "\<dots> = Some (draw (random example_browser (Suc (Suc 0))), Suc (Suc (Suc 0)))"
    by (rule gen_free) (simp add: r draw_half has_one_entry)
  finally have g: "generateCode one_entry (random example_browser) 1 = Some (''5500'', 3)"
    by (simp add: r draw_half)
  then show ?thesis
    by (simp add: handleFileUpload_def initial_def objectURL_example
        app1_def browser1_def app2_def browser2_def)
qed

lemma example_steps:
  "step (SelectFile (Some report_pdf)) (initial, example_browser) = Some (app1, browser1)"
  "step ClickUploadAnother (app1, browser1) = Some (app1\<lparr>uploadedCode := []\<rparr>, browser1)"
  "step (Drop (Some notes_txt)) (app1\<lparr>uploadedCode := []\<rparr>, browser1) = Some (app2, browser2)"
proof -
  show "step (SelectFile (Some report_pdf)) (initial, example_browser) = Some (app1, browser1)"
    using example_upload_first by (simp add: step_def handleFileSelect_def initial_def)
  show "step ClickUploadAnother (app1, browser1) = Some (app1\<lparr>uploadedCode := []\<rparr>, browser1)"
    by (simp add: step_def clickUploadAnother_def initial_def app1_def)
  have "view app1 = upload" "isDragging app1 = False"
    by (simp_all add: app1_def initial_def)
  then have "app1\<lparr>uploadedCode := [], isDragging := False\<rparr> = app1\<lparr>uploadedCode := []\<rparr>"
    "enabled (app1\<lparr>uploadedCode := []\<rparr>) (Drop (Some notes_txt))"
    by simp_all
  then show "step (Drop (Some notes_txt)) (app1\<lparr>uploadedCode := []\<rparr>, browser1)
      = Some (app2, browser2)"
    using example_upload_second by (simp add: step_def handleDrop_def)
qed

lemma example_run: "run example_session (initial, example_browser) = Some (app2, browser2)"
  using example_steps by (simp add: example_session_def)

lemma example_rest: "run [ClickUploadAnother, Drop (Some notes_txt)] (app1, browser1) = Some (app2, browser2)"
  using example_steps by simp

lemma example_assigned:
  "assigned example_session (initial, example_browser) = [''1000'', ''5500'']"
  using example_steps
  by (simp add: example_session_def initial_def app1_def app2_def)

lemma example_lookups:
  "get (fileShares app1) ''1000'' = Some \<lparr>code = ''1000'', file' = report_pdf, url = ''blob:0''\<rparr>"
  "get (fileShares app2) ''1000'' = Some \<lparr>code = ''1000'', file' = report_pdf, url = ''blob:0''\<rparr>"
  "get (fileShares app2) ''5500'' = Some \<lparr>code = ''5500'', file' = notes_txt, url = ''blob:1''\<rparr>"
  "get (fileShares app2) ''1234'' = None"
  by (simp_all add: app1_def app2_def one_entry_def get_def set_entry_def)

lemma typing_run:
  "run typing_session (initial, example_browser)
     = Some (initial\<lparr>view := download, downloadCode := ''1234''\<rparr>, example_browser)"
  by (simp add: typing_session_def step_def clickDownloadTab_def changeDownloadCode_def
      initial_def isDigit_def)

subsection \<open>The claims\<close>

text \<open>
  C1. The code \<^verbatim>\<open>generateCode\<close> returns is not a key of the registry it was called
  with, so the code an upload shows was not a key of the registry before that upload. In
  every session, however many files are uploaded, the codes assigned are pairwise
  distinct, none of them was a key when the session began, and the keys at the end are the
  keys at the beginning and the codes assigned: each code has one entry.
\<close>

theorem assigned_codes_distinct:
  "(generateCode m rnd i = Some (c, i') \<longrightarrow> \<not> has m c)
   \<and> (handleFileUpload (Some f) (s, b) = Some (s', b')
        \<longrightarrow> \<not> has (fileShares s) (uploadedCode s'))
   \<and> (run es w = Some w'
        \<longrightarrow> distinct (assigned es w)
            \<and> list_all (\<lambda>k. \<not> has (fileShares (fst w)) k) (assigned es w)
            \<and> fmdom' (fileShares (fst w')) = fmdom' (fileShares (fst w)) \<union> set (assigned es w))"
proof (intro conjI impI)
  assume "generateCode m rnd i = Some (c, i')"
  then show "\<not> has m c" by (rule gen_fresh)
next
  assume "handleFileUpload (Some f) (s, b) = Some (s', b')"
  then show "\<not> has (fileShares s) (uploadedCode s')" by (rule upload_registry(1))
next
  assume r: "run es w = Some w'"
  from run_assigned [OF r] show "distinct (assigned es w)" by simp
  from run_assigned [OF r]
  show "list_all (\<lambda>k. \<not> has (fileShares (fst w)) k) (assigned es w)"
    by (auto simp: list_all_iff has_def fmlookup_dom'_iff)
  from run_assigned [OF r]
  show "fmdom' (fileShares (fst w')) = fmdom' (fileShares (fst w)) \<union> set (assigned es w)"
    by simp
qed

theorem assigned_codes_distinct_witness:
  "generateCode one_entry (random example_browser) 0 = Some (''5500'', 3)
   \<and> \<not> has one_entry ''5500''
   \<and> handleFileUpload (Some report_pdf) (initial, example_browser) = Some (app1, browser1)
   \<and> \<not> has (fileShares initial) (uploadedCode app1)
   \<and> run example_session (initial, example_browser) = Some (app2, browser2)
   \<and> assigned example_session (initial, example_browser) = [''1000'', ''5500'']
   \<and> distinct (assigned example_session (initial, example_browser))
   \<and> fmdom' (fileShares app2) = {''1000'', ''5500''}"
  using assigned_codes_distinct [of one_entry "random example_browser" 0 "''5500''" 3
      report_pdf initial example_browser app1 browser1
      example_session "(initial, example_browser)" "(app2, browser2)"]
    gen_example_one_entry example_upload_first example_run example_assigned
  by (auto simp: initial_def)

text \<open>
  C2. Whatever the registry holds and whatever \<^verbatim>\<open>Math.random()\<close> returns (within its
  range: doubles, at least 0 and less than 1), a code that \<^verbatim>\<open>generateCode\<close> returns is a
  string of exactly four decimal digits, its numeric value is between 1000 and 9999, and it
  does not begin with a zero. The product and the sum are rounded as doubles are: the
  largest double below 1 still gives a sum below 10000.
\<close>

theorem generateCode_format:
  assumes "in_range rnd" and "generateCode m rnd i = Some (c, i')"
  shows "length c = 4 \<and> list_all isDigit c \<and> 1000 \<le> numeric_value c \<and> numeric_value c \<le> 9999
    \<and> hd c \<noteq> CHR ''0''"
  using gen_is_code [OF assms] by (simp add: is_code_def)

theorem generateCode_format_witness:
  "in_range (random example_browser)
   \<and> generateCode one_entry (random example_browser) 0 = Some (''5500'', 3)
   \<and> length ''5500'' = 4 \<and> list_all isDigit ''5500'' \<and> 1000 \<le> numeric_value ''5500''
   \<and> numeric_value ''5500'' \<le> 9999 \<and> hd ''5500'' \<noteq> CHR ''0''"
  using in_range_example gen_example_one_entry
    generateCode_format [OF in_range_example gen_example_one_entry]
  by simp

text \<open>
  C3. After an upload of a file, looking up the code it shows gives the entry that was
  stored: that code, that file (so its name and its size) and the object URL made for it.
  The download action on that code starts a download of that URL under the file's name.
  And whatever events follow, the code keeps resolving to that entry.
\<close>

theorem upload_round_trip:
  assumes "handleFileUpload (Some f) (s, b) = Some (s', b')"
  shows "get (fileShares s') (uploadedCode s')
           = Some \<lparr>code = uploadedCode s', file' = f, url = objectURL b (objectURLCalls b)\<rparr>
    \<and> (\<exists>x. get (fileShares s') (uploadedCode s') = Some x
           \<and> name (file' x) = name f \<and> size_bytes (file' x) = size_bytes f)
    \<and> handleDownload (s'\<lparr>downloadCode := uploadedCode s'\<rparr>, b')
        = (s'\<lparr>downloadCode := [], error := []\<rparr>,
           b'\<lparr>downloads := downloads b' @ [(objectURL b (objectURLCalls b), name f)]\<rparr>)
    \<and> (run es (s', b') = Some w''
        \<longrightarrow> get (fileShares (fst w'')) (uploadedCode s')
             = Some \<lparr>code = uploadedCode s', file' = f, url = objectURL b (objectURLCalls b)\<rparr>)"
proof -
  let ?x = "\<lparr>code = uploadedCode s', file' = f, url = objectURL b (objectURLCalls b)\<rparr>"
  from upload_registry(2) [OF assms]
  have g: "get (fileShares s') (uploadedCode s') = Some ?x"
    by (simp add: get_def set_entry_def)
  then have d: "handleDownload (s'\<lparr>downloadCode := uploadedCode s'\<rparr>, b')
        = (s'\<lparr>downloadCode := [], error := []\<rparr>,
           b'\<lparr>downloads := downloads b' @ [(objectURL b (objectURLCalls b), name f)]\<rparr>)"
    by (simp add: handleDownload_def)
  have "get (fileShares (fst w'')) (uploadedCode s') = Some ?x"
    if "run es (s', b') = Some w''"
    using run_keeps [OF that, of "uploadedCode s'" ?x] g by simp
  with g d show ?thesis by simp
qed

theorem upload_round_trip_witness:
  "handleFileUpload (Some report_pdf) (initial, example_browser) = Some (app1, browser1)
   \<and> get (fileShares app1) ''1000''
       = Some \<lparr>code = ''1000'', file' = \<lparr>name = ''report.pdf'', size_bytes = 2048\<rparr>, url = ''blob:0''\<rparr>
   \<and> handleDownload (app1\<lparr>downloadCode := ''1000''\<rparr>, browser1)
       = (app1\<lparr>downloadCode := [], error := []\<rparr>,
          browser1\<lparr>downloads := [(''blob:0'', ''report.pdf'')]\<rparr>)
   \<and> run [ClickUploadAnother, Drop (Some notes_txt)] (app1, browser1) = Some (app2, browser2)
   \<and> get (fileShares app2) ''1000''
       = Some \<lparr>code = ''1000'', file' = \<lparr>name = ''report.pdf'', size_bytes = 2048\<rparr>, url = ''blob:0''\<rparr>"
proof -
  have c: "uploadedCode app1 = ''1000''" "objectURLCalls example_browser = 0"
    "downloads browser1 = []"
    by (simp_all add: app1_def browser1_def example_browser_def)
  from upload_round_trip [OF example_upload_first,
      of "[ClickUploadAnother, Drop (Some notes_txt)]" "(app2, browser2)"]
    example_upload_first example_rest c show ?thesis
    by (simp add: objectURL_example report_pdf_def)
qed

text \<open>
  C4. A lookup misses exactly when the code is not a key of the registry: there is no other
  way to match. In a session from the first render, a code that no upload was assigned is
  not a key, and the download action on it sets the (non-empty) error message
  and does nothing else. No other error message is ever set: in every state a session
  reaches the error is empty or that message.
\<close>

theorem download_miss:
  "(get m c = None \<longleftrightarrow> c \<notin> fmdom' m)
   \<and> (run es (initial, b) = Some (s, b') \<and> c \<notin> set (assigned es (initial, b))
        \<longrightarrow> get (fileShares s) c = None
            \<and> handleDownload (s\<lparr>downloadCode := c\<rparr>, b')
                = (s\<lparr>downloadCode := c, error := invalid_code_message\<rparr>, b'))
   \<and> invalid_code_message \<noteq> []
   \<and> (run es (initial, b) = Some (s, b') \<longrightarrow> error s = [] \<or> error s = invalid_code_message)"
proof (intro conjI impI)
  show "get m c = None \<longleftrightarrow> c \<notin> fmdom' m"
    by (auto simp: get_def fmlookup_dom'_iff)
  show "invalid_code_message \<noteq> []" by (simp add: invalid_code_message_def)
next
  assume a: "run es (initial, b) = Some (s, b') \<and> c \<notin> set (assigned es (initial, b))"
  then have r: "run es (initial, b) = Some (s, b')" by simp
  from run_assigned [OF r] have "fmdom' (fileShares s) = set (assigned es (initial, b))"
    by (simp add: initial_def)
  with a show g: "get (fileShares s) c = None"
    by (auto simp: get_def fmlookup_dom'_iff)
  then show "handleDownload (s\<lparr>downloadCode := c\<rparr>, b')
      = (s\<lparr>downloadCode := c, error := invalid_code_message\<rparr>, b')"
    by (simp add: handleDownload_def)
next
  assume "run es (initial, b) = Some (s, b')"
  from run_from_initial [OF this] show "error s = [] \<or> error s = invalid_code_message"
    by simp
qed

theorem download_miss_witness:
  "run example_session (initial, example_browser) = Some (app2, browser2)
   \<and> ''1234'' \<notin> set (assigned example_session (initial, example_browser))
   \<and> get (fileShares app2) ''1234'' = None
   \<and> handleDownload (app2\<lparr>downloadCode := ''1234''\<rparr>, browser2)
       = (app2\<lparr>downloadCode := ''1234'', error := invalid_code_message\<rparr>, browser2)
   \<and> error app2 = []"
  using download_miss [of fmempty "''1234''" example_session example_browser app2 browser2]
    example_run example_assigned
  by (simp add: app2_def initial_def)

text \<open>
  C5. Storing an entry under a code and then another entry under the same code leaves the
  second: a lookup of the code gives the entry stored last, and the registry is the one the
  second store alone would give.
\<close>

theorem set_twice_get_last:
  "get (set_entry (set_entry m c e1) c e2) c = Some e2
   \<and> set_entry (set_entry m c e1) c e2 = set_entry m c e2"
  by (simp add: get_def set_entry_def)

text \<open>
  C6. Whatever is typed into the code field, the code stored has only digits and at most
  four of them, and so has the code entered in every state a session reaches. The download
  button takes a click only when that code has exactly four characters, which are then four
  digits; with any other length the click does nothing. The keys the markup looks up are
  codes too (given a random source in range), so every key that reaches a lookup is a
  string of four digits.
\<close>

theorem download_code_constrained:
  "list_all isDigit (downloadCode (changeDownloadCode typed s))
   \<and> length (downloadCode (changeDownloadCode typed s)) \<le> 4
   \<and> (run es (initial, b) = Some (s', b')
        \<longrightarrow> list_all isDigit (downloadCode s') \<and> length (downloadCode s') \<le> 4
            \<and> (enabled s' ClickDownload
                 \<longrightarrow> length (downloadCode s') = 4 \<and> list_all isDigit (downloadCode s'))
            \<and> (in_range (random b) \<longrightarrow> list_all is_code (render_lookups s')))
   \<and> (length (downloadCode s) \<noteq> 4
        \<longrightarrow> \<not> enabled s ClickDownload \<and> step ClickDownload (s, b) = Some (s, b))"
proof (intro conjI impI)
  show "list_all isDigit (downloadCode (changeDownloadCode typed s))"
    and "length (downloadCode (changeDownloadCode typed s)) \<le> 4"
    using typed_code [of typed] by (simp_all add: changeDownloadCode_def)
next
  assume r: "run es (initial, b) = Some (s', b')"
  from run_from_initial [OF r]
  show d: "list_all isDigit (downloadCode s')" and "length (downloadCode s') \<le> 4"
    by simp_all
  {
    assume "enabled s' ClickDownload"
    then show "length (downloadCode s') = 4" by simp
    from d show "list_all isDigit (downloadCode s')" .
  }
  assume "in_range (random b)"
  with run_from_initial [OF r] show "list_all is_code (render_lookups s')"
    by (auto simp: render_lookups_def)
next
  assume "length (downloadCode s) \<noteq> 4"
  then show "\<not> enabled s ClickDownload" and "step ClickDownload (s, b) = Some (s, b)"
    by (simp_all add: step_def)
qed

theorem download_code_constrained_witness:
  "downloadCode (changeDownloadCode ''12a3b45'' initial) = ''1234''
   \<and> run typing_session (initial, example_browser)
       = Some (initial\<lparr>view := download, downloadCode := ''1234''\<rparr>, example_browser)
   \<and> enabled (initial\<lparr>view := download, downloadCode := ''1234''\<rparr>) ClickDownload
   \<and> list_all isDigit ''1234''
   \<and> run example_session (initial, example_browser) = Some (app2, browser2)
   \<and> in_range (random example_browser)
   \<and> render_lookups app2 = [''5500'', ''5500'']
   \<and> list_all is_code (render_lookups app2)
   \<and> length (downloadCode initial) \<noteq> 4
   \<and> step ClickDownload (initial, example_browser) = Some (initial, example_browser)"
proof -
  have a: "downloadCode (changeDownloadCode ''12a3b45'' initial) = ''1234''"
    by (simp add: changeDownloadCode_def isDigit_def)
  have e: "enabled (initial\<lparr>view := download, downloadCode := ''1234''\<rparr>) ClickDownload"
    by simp
  have l: "render_lookups app2 = [''5500'', ''5500'']"
    by (simp add: render_lookups_def app2_def initial_def)
  have n: "length (downloadCode initial) \<noteq> 4" by (simp add: initial_def)
  from download_code_constrained [of "''12a3b45''" initial typing_session example_browser
      "initial\<lparr>view := download, downloadCode := ''1234''\<rparr>" example_browser]
    download_code_constrained [of "''12a3b45''" initial example_session example_browser
      app2 browser2]
    a e l n typing_run example_run in_range_example
  show ?thesis by simp
qed

text \<open>
  C7. No event removes an entry. "Upload Another File" changes the code shown and nothing
  else. After any handler, and after any session, every entry is still found under its code
  and the registry is no smaller than before.
\<close>

theorem no_eviction:
  "clickUploadAnother s = s\<lparr>uploadedCode := []\<rparr>
   \<and> fileShares (clickUploadAnother s) = fileShares s
   \<and> (handle e (s, b) = Some (s', b')
        \<longrightarrow> size_of (fileShares s) \<le> size_of (fileShares s')
            \<and> (get (fileShares s) k = Some y \<longrightarrow> get (fileShares s') k = Some y))
   \<and> (run es w = Some w'
        \<longrightarrow> size_of (fileShares (fst w)) \<le> size_of (fileShares (fst w'))
            \<and> (get (fileShares (fst w)) k = Some y \<longrightarrow> get (fileShares (fst w')) k = Some y))"
proof (intro conjI impI)
  show "clickUploadAnother s = s\<lparr>uploadedCode := []\<rparr>"
    and "fileShares (clickUploadAnother s) = fileShares s"
    by (simp_all add: clickUploadAnother_def)
next
  assume h: "handle e (s, b) = Some (s', b')"
  from handle_registry [OF h]
  show "size_of (fileShares s) \<le> size_of (fileShares s')"
    by (auto simp: set_entry_fresh split: if_splits)
  assume "get (fileShares s) k = Some y"
  with handle_registry [OF h]
  show "get (fileShares s') k = Some y"
    by (auto simp: set_entry_fresh split: if_splits)
next
  assume r: "run es w = Some w'"
  from run_keeps [OF r] show "size_of (fileShares (fst w)) \<le> size_of (fileShares (fst w'))"
    by simp
  assume "get (fileShares (fst w)) k = Some y"
  with run_keeps [OF r, of k y] show "get (fileShares (fst w')) k = Some y" by simp
qed

theorem no_eviction_witness:
  "handle ClickUploadAnother (app1, browser1) = Some (app1\<lparr>uploadedCode := []\<rparr>, browser1)
   \<and> get (fileShares app1) ''1000''
       = Some \<lparr>code = ''1000'', file' = report_pdf, url = ''blob:0''\<rparr>
   \<and> get (fileShares (app1\<lparr>uploadedCode := []\<rparr>)) ''1000''
       = Some \<lparr>code = ''1000'', file' = report_pdf, url = ''blob:0''\<rparr>
   \<and> run [ClickUploadAnother, Drop (Some notes_txt)] (app1, browser1) = Some (app2, browser2)
   \<and> size_of (fileShares app1) \<le> size_of (fileShares app2)
   \<and> get (fileShares app2) ''1000''
       = Some \<lparr>code = ''1000'', file' = report_pdf, url = ''blob:0''\<rparr>"
proof -
  let ?x = "\<lparr>code = ''1000'', file' = report_pdf, url = ''blob:0''\<rparr>"
  have h: "handle ClickUploadAnother (app1, browser1)
      = Some (app1\<lparr>uploadedCode := []\<rparr>, browser1)"
    by (simp add: clickUploadAnother_def)
  from no_eviction [of app1 ClickUploadAnother browser1 "app1\<lparr>uploadedCode := []\<rparr>" browser1
      "''1000''" ?x "[ClickUploadAnother, Drop (Some notes_txt)]" "(app1, browser1)"
      "(app2, browser2)"]
    h example_rest example_lookups(1) show ?thesis by simp
qed

text \<open>
  C8. The download action never changes the registry. When the code entered is not a key,
  it sets the error message and changes nothing else: the registry, the code entered, the
  rest of the state and the browser stay as they were. When it is a key, the action starts
  the download of that entry's URL under its file's name and clears the code and the error.
\<close>

theorem download_frame:
  "fileShares (fst (handleDownload (s, b))) = fileShares s
   \<and> (get (fileShares s) (downloadCode s) = None
        \<longrightarrow> handleDownload (s, b) = (s\<lparr>error := invalid_code_message\<rparr>, b))
   \<and> (get (fileShares s) (downloadCode s) = Some x
        \<longrightarrow> handleDownload (s, b)
             = (s\<lparr>error := [], downloadCode := []\<rparr>,
                b\<lparr>downloads := downloads b @ [(url x, name (file' x))]\<rparr>))"
  by (simp add: handleDownload_def split: option.splits)

theorem download_frame_witness:
  "get (fileShares (app2\<lparr>downloadCode := ''1234''\<rparr>)) ''1234'' = None
   \<and> handleDownload (app2\<lparr>downloadCode := ''1234''\<rparr>, browser2)
       = (app2\<lparr>downloadCode := ''1234'', error := invalid_code_message\<rparr>, browser2)
   \<and> get (fileShares (app2\<lparr>downloadCode := ''5500''\<rparr>)) ''5500''
       = Some \<lparr>code = ''5500'', file' = notes_txt, url = ''blob:1''\<rparr>
   \<and> handleDownload (app2\<lparr>downloadCode := ''5500''\<rparr>, browser2)
       = (app2\<lparr>downloadCode := [], error := []\<rparr>,
          browser2\<lparr>downloads := [(''blob:1'', ''notes.txt'')]\<rparr>)"
proof -
  let ?x = "\<lparr>code = ''5500'', file' = notes_txt, url = ''blob:1''\<rparr>"
  have d: "downloads browser2 = []"
    by (simp add: browser2_def example_browser_def)
  from download_frame [of "app2\<lparr>downloadCode := ''1234''\<rparr>" browser2 ?x]
    download_frame [of "app2\<lparr>downloadCode := ''5500''\<rparr>" browser2 ?x]
    example_lookups d
  show ?thesis by (simp add: notes_txt_def)
qed

text \<open>
  C9. \<^verbatim>\<open>generateCode\<close> has no way to fail but not to return, and it returns exactly when
  some draw, from the call it starts at, gives a code that is not a key. With a random
  source in range that keeps drawing every code, as uniformly random draws do, it returns
  for every registry that does not hold all 9000 codes, so for every registry with fewer
  than 9000 entries, and the code returned is not a key; the loop runs for ever exactly
  when all 9000 codes are keys.
\<close>

theorem generateCode_terminates:
  "((\<exists>y. generateCode m rnd i = Some y) \<longleftrightarrow> (\<exists>k\<ge>i. \<not> has m (draw (rnd k))))
   \<and> (fair rnd \<and> \<not> full m
        \<longrightarrow> (\<exists>c i'. generateCode m rnd i = Some (c, i') \<and> \<not> has m c))
   \<and> (size_of m < 9000 \<longrightarrow> \<not> full m)
   \<and> (in_range rnd \<and> fair rnd \<longrightarrow> (generateCode m rnd i = None \<longleftrightarrow> full m))"
proof (intro conjI impI)
  show "(\<exists>y. generateCode m rnd i = Some y) \<longleftrightarrow> (\<exists>k\<ge>i. \<not> has m (draw (rnd k)))"
  proof
    assume "\<exists>y. generateCode m rnd i = Some y"
    then obtain y where "generateCode m rnd i = Some y" ..
    from gen_Some_D [OF this] show "\<exists>k\<ge>i. \<not> has m (draw (rnd k))" by blast
  next
    assume "\<exists>k\<ge>i. \<not> has m (draw (rnd k))"
    then show "\<exists>y. generateCode m rnd i = Some y" using gen_terminates by blast
  qed
next
  assume "fair rnd \<and> \<not> full m"
  with fair_returns [of rnd m i] have "\<exists>y. generateCode m rnd i = Some y" by blast
  then obtain c i' where g: "generateCode m rnd i = Some (c, i')" by auto
  from gen_fresh [OF g] g show "\<exists>c i'. generateCode m rnd i = Some (c, i') \<and> \<not> has m c"
    by blast
next
  assume "size_of m < 9000"
  with full_size [of m] show "\<not> full m" by auto
next
  assume a: "in_range rnd \<and> fair rnd"
  show "generateCode m rnd i = None \<longleftrightarrow> full m"
  proof
    assume n: "generateCode m rnd i = None"
    show "full m"
    proof (rule ccontr)
      assume "\<not> full m"
      with a fair_returns [of rnd m i] n show False by simp
    qed
  next
    assume "full m"
    with a show "generateCode m rnd i = None" by (simp add: full_never_returns)
  qed
qed

theorem generateCode_terminates_witness:
  "in_range fair_random \<and> fair fair_random
   \<and> size_of one_entry < 9000 \<and> \<not> full one_entry
   \<and> generateCode one_entry fair_random 0 = Some (''1001'', 2)
   \<and> \<not> has one_entry ''1001''
   \<and> full all_codes
   \<and> generateCode all_codes fair_random 0 = None"
proof -
  have d: "draw (fair_random 0) = ''1000''" "draw (fair_random (Suc 0)) = ''1001''"
    using fair_random_draw [of 0] fair_random_draw [of "Suc 0"] by (simp_all add: toString_eval)
  have "generateCode one_entry fair_random 0 = generateCode one_entry fair_random (Suc 0)"
    by (rule gen_taken) (simp add: d has_one_entry)
  also have "\<dots> = Some (draw (fair_random (Suc 0)), Suc (Suc 0))"
    by (rule gen_free) (simp add: d has_one_entry)
  finally have g: "generateCode one_entry fair_random 0 = Some (''1001'', 2)"
    by (simp add: d)
  from generateCode_terminates [of one_entry fair_random 0]
    generateCode_terminates [of all_codes fair_random 0]
    g in_range_fair_random fair_fair_random size_of_one_entry full_all_codes
  show ?thesis by (simp add: has_one_entry)
qed

text \<open>
  C10. An upload of a file returns whenever a draw from the current call on gives a code
  that is not a key, so, with a random source that keeps drawing every code, whenever the
  registry does not hold all 9000 codes. When it returns it has added exactly one entry:
  the code it shows was not a key before and is one after, the registry has one entry more,
  the new entry holds the file, every other code resolves as it did before, the error is
  cleared and the rest of the state is as it was.
\<close>

theorem upload_frame:
  "((\<exists>k\<ge>randomCalls b. \<not> has (fileShares s) (draw (random b k)))
        \<longrightarrow> (\<exists>s' b'. handleFileUpload (Some f) (s, b) = Some (s', b')))
   \<and> (fair (random b) \<and> \<not> full (fileShares s)
        \<longrightarrow> (\<exists>s' b'. handleFileUpload (Some f) (s, b) = Some (s', b')))
   \<and> (handleFileUpload (Some f) (s, b) = Some (s', b')
        \<longrightarrow> \<not> has (fileShares s) (uploadedCode s')
          \<and> has (fileShares s') (uploadedCode s')
          \<and> size_of (fileShares s') = size_of (fileShares s) + 1
          \<and> get (fileShares s') (uploadedCode s')
              = Some \<lparr>code = uploadedCode s', file' = f, url = objectURL b (objectURLCalls b)\<rparr>
          \<and> (\<forall>k. k \<noteq> uploadedCode s' \<longrightarrow> get (fileShares s') k = get (fileShares s) k)
          \<and> (\<forall>k y. get (fileShares s) k = Some y \<longrightarrow> get (fileShares s') k = Some y)
          \<and> error s' = []
          \<and> view s' = view s \<and> downloadCode s' = downloadCode s
          \<and> copied s' = copied s \<and> isDragging s' = isDragging s)"
proof (intro conjI)
  show "(\<exists>k\<ge>randomCalls b. \<not> has (fileShares s) (draw (random b k)))
        \<longrightarrow> (\<exists>s' b'. handleFileUpload (Some f) (s, b) = Some (s', b'))"
    using upload_returns by blast
  show "fair (random b) \<and> \<not> full (fileShares s)
        \<longrightarrow> (\<exists>s' b'. handleFileUpload (Some f) (s, b) = Some (s', b'))"
    using fair_free_draw [of "random b" "fileShares s" "randomCalls b"] upload_returns
    by blast
  show "handleFileUpload (Some f) (s, b) = Some (s', b')
        \<longrightarrow> \<not> has (fileShares s) (uploadedCode s')
          \<and> has (fileShares s') (uploadedCode s')
          \<and> size_of (fileShares s') = size_of (fileShares s) + 1
          \<and> get (fileShares s') (uploadedCode s')
              = Some \<lparr>code = uploadedCode s', file' = f, url = objectURL b (objectURLCalls b)\<rparr>
          \<and> (\<forall>k. k \<noteq> uploadedCode s' \<longrightarrow> get (fileShares s') k = get (fileShares s) k)
          \<and> (\<forall>k y. get (fileShares s) k = Some y \<longrightarrow> get (fileShares s') k = Some y)
          \<and> error s' = []
          \<and> view s' = view s \<and> downloadCode s' = downloadCode s
          \<and> copied s' = copied s \<and> isDragging s' = isDragging s"
  proof
    assume u: "handleFileUpload (Some f) (s, b) = Some (s', b')"
    note fresh = upload_registry(1) [OF u]
    note upd = upload_registry(2) [OF u]
    from upd have "has (fileShares s') (uploadedCode s')"
      and "get (fileShares s') (uploadedCode s')
          = Some \<lparr>code = uploadedCode s', file' = f, url = objectURL b (objectURLCalls b)\<rparr>"
      and "\<forall>k. k \<noteq> uploadedCode s' \<longrightarrow> get (fileShares s') k = get (fileShares s) k"
      by (simp_all add: has_def get_def set_entry_def)
    moreover from upd set_entry_fresh(1) [OF fresh]
    have "size_of (fileShares s') = size_of (fileShares s) + 1" by simp
    moreover from upd set_entry_fresh(2) [OF fresh]
    have "\<forall>k y. get (fileShares s) k = Some y \<longrightarrow> get (fileShares s') k = Some y" by simp
    ultimately show "\<not> has (fileShares s) (uploadedCode s')
          \<and> has (fileShares s') (uploadedCode s')
          \<and> size_of (fileShares s') = size_of (fileShares s) + 1
          \<and> get (fileShares s') (uploadedCode s')
              = Some \<lparr>code = uploadedCode s', file' = f, url = objectURL b (objectURLCalls b)\<rparr>
          \<and> (\<forall>k. k \<noteq> uploadedCode s' \<longrightarrow> get (fileShares s') k = get (fileShares s) k)
          \<and> (\<forall>k y. get (fileShares s) k = Some y \<longrightarrow> get (fileShares s') k = Some y)
          \<and> error s' = []
          \<and> view s' = view s \<and> downloadCode s' = downloadCode s
          \<and> copied s' = copied s \<and> isDragging s' = isDragging s"
      using fresh upload_rest [OF u] by simp
  qed
qed

theorem upload_frame_witness:
  "randomCalls browser1 \<le> 2 \<and> \<not> has (fileShares (app1\<lparr>uploadedCode := []\<rparr>)) (draw (random browser1 2))
   \<and> handleFileUpload (Some notes_txt) (app1\<lparr>uploadedCode := []\<rparr>, browser1) = Some (app2, browser2)
   \<and> \<not> has (fileShares app1) ''5500''
   \<and> has (fileShares app2) ''5500''
   \<and> size_of (fileShares app1) = 1
   \<and> size_of (fileShares app2) = 2
   \<and> get (fileShares app2) ''5500''
       = Some \<lparr>code = ''5500'', file' = notes_txt, url = ''blob:1''\<rparr>
   \<and> get (fileShares app2) ''1000''
       = Some \<lparr>code = ''1000'', file' = report_pdf, url = ''blob:0''\<rparr>
   \<and> error app2 = []
   \<and> fair (random fair_browser) \<and> \<not> full (fileShares app1)
   \<and> (\<exists>s' b'. handleFileUpload (Some notes_txt) (app1, fair_browser) = Some (s', b'))"
proof -
  have c: "uploadedCode app2 = ''5500''" "fileShares app1 = one_entry"
    "randomCalls browser1 = 1" "draw (random browser1 2) = ''5500''"
    "random fair_browser = fair_random"
    by (simp_all add: app1_def app2_def browser1_def example_browser_def fair_browser_def
        draw_half)
  from upload_frame [of browser1 "app1\<lparr>uploadedCode := []\<rparr>" notes_txt app2 browser2]
    upload_frame [of fair_browser app1 notes_txt app2 browser2]
    example_upload_second c example_lookups size_of_one_entry fair_fair_random
    not_full_one_entry
  show ?thesis
    by (simp add: has_one_entry)
qed

end
